theory Spec2Isabelle
  imports Main "HOL-Library.Sublist"
begin

section \<open>Text: JavaScript strings as lists of UTF-16 code units\<close>

text \<open>
  \<^verbatim>\<open>src/index.js\<close> works on JavaScript strings. A JavaScript string is a sequence of
  UTF-16 code units; a code unit is modelled as a natural number (every value a real
  string can hold is below 65536; larger numbers behave like ordinary letters here).
  \<open>js\<close> turns an ASCII literal into such a string.
\<close>

type_synonym cu = nat
type_synonym jsstring = "cu list"

definition js :: "string \<Rightarrow> jsstring" where
  "js s = map of_char s"

text \<open>
  The code units that \<^verbatim>\<open>\s\<close> and \<^verbatim>\<open>String.prototype.trim\<close> treat as white space
  (ECMAScript WhiteSpace and LineTerminator): TAB, LF, VT, FF, CR, SP, NBSP, U+1680,
  U+2000..U+200A, U+2028, U+2029, U+202F, U+205F, U+3000, U+FEFF.
\<close>

definition is_ws :: "cu \<Rightarrow> bool" where
  "is_ws c \<longleftrightarrow>
     c = 9 \<or> c = 10 \<or> c = 11 \<or> c = 12 \<or> c = 13 \<or> c = 32 \<or> c = 160 \<or> c = 5760 \<or>
     (8192 \<le> c \<and> c \<le> 8202) \<or> c = 8232 \<or> c = 8233 \<or> c = 8239 \<or> c = 8287 \<or>
     c = 12288 \<or> c = 65279"

text \<open>The code units that \<^verbatim>\<open>.\<close> does not match (LF, CR, U+2028, U+2029).\<close>

definition is_line_terminator :: "cu \<Rightarrow> bool" where
  "is_line_terminator c \<longleftrightarrow> c = 10 \<or> c = 13 \<or> c = 8232 \<or> c = 8233"

text \<open>\<^verbatim>\<open>\d\<close>: the ASCII digits.\<close>

definition is_digit :: "cu \<Rightarrow> bool" where
  "is_digit c \<longleftrightarrow> 48 \<le> c \<and> c \<le> 57"

subsection \<open>String methods\<close>

text \<open>\<^verbatim>\<open>s.startsWith(p)\<close>, \<^verbatim>\<open>s.endsWith(p)\<close>.\<close>

fun startsWith :: "'a list \<Rightarrow> 'a list \<Rightarrow> bool" where
  "startsWith s [] = True"
| "startsWith [] (p # ps) = False"
| "startsWith (c # s) (p # ps) = (c = p \<and> startsWith s ps)"

definition endsWith :: "'a list \<Rightarrow> 'a list \<Rightarrow> bool" where
  "endsWith s p = startsWith (rev s) (rev p)"

text \<open>
  \<^verbatim>\<open>s.indexOf(p, pos)\<close>: the first index at or after \<open>pos\<close> where \<open>p\<close> occurs;
  \<open>None\<close> stands for \<^verbatim>\<open>-1\<close>. \<open>search s p\<close> is the search from index 0. A start
  position beyond the end is clamped to the length.
\<close>

fun search :: "'a list \<Rightarrow> 'a list \<Rightarrow> nat option" where
  "search [] p = (if p = [] then Some 0 else None)"
| "search (c # s) p =
     (if startsWith (c # s) p then Some 0 else map_option Suc (search s p))"

definition indexOf :: "'a list \<Rightarrow> 'a list \<Rightarrow> nat \<Rightarrow> nat option" where
  "indexOf s p pos = map_option (\<lambda>i. i + min pos (length s)) (search (drop pos s) p)"

text \<open>\<^verbatim>\<open>s.includes(p)\<close>.\<close>

definition js_includes :: "'a list \<Rightarrow> 'a list \<Rightarrow> bool" where
  "js_includes s p \<longleftrightarrow> search s p \<noteq> None"

text \<open>\<^verbatim>\<open>s.trimStart()\<close>, \<^verbatim>\<open>s.trimEnd()\<close>, \<^verbatim>\<open>s.trim()\<close>.\<close>

definition trimStart :: "jsstring \<Rightarrow> jsstring" where
  "trimStart s = dropWhile is_ws s"

definition trimEnd :: "jsstring \<Rightarrow> jsstring" where
  "trimEnd s = rev (dropWhile is_ws (rev s))"

definition trim :: "jsstring \<Rightarrow> jsstring" where
  "trim s = trimEnd (trimStart s)"

text \<open>\<^verbatim>\<open>line.match(/^(\s*)/)[0]\<close>: the leading white space of a string.\<close>

definition leading_ws :: "jsstring \<Rightarrow> jsstring" where
  "leading_ws s = takeWhile is_ws s"

text \<open>\<^verbatim>\<open>s.split('\n')\<close> (never empty) and \<^verbatim>\<open>lines.join('\n')\<close>.\<close>

function split :: "jsstring \<Rightarrow> jsstring list" where
  "split s =
     takeWhile (\<lambda>c. c \<noteq> 10) s
       # (case dropWhile (\<lambda>c. c \<noteq> 10) s of [] \<Rightarrow> [] | nl # rest \<Rightarrow> split rest)"
  by pat_completeness auto
termination
proof (relation "measure length", goal_cases)
  case 1
  show ?case by simp
next
  case (2 s nl rest)
  have "length (dropWhile (\<lambda>c. c \<noteq> 10) s) \<le> length s" by (rule length_dropWhile_le)
  with 2 show ?case by simp
qed

declare split.simps [simp del]

lemma split_Nil [simp]: "split [] = [[]]"
  by (simp add: split.simps)

lemma split_Cons:
  "split (c # s) = (if c = 10 then [] # split s else (c # hd (split s)) # tl (split s))"
proof -
  have h: "hd (split s) = takeWhile (\<lambda>c. c \<noteq> 10) s"
    by (subst split.simps) simp
  have t: "tl (split s) =
      (case dropWhile (\<lambda>c. c \<noteq> 10) s of [] \<Rightarrow> [] | nl # rest \<Rightarrow> split rest)"
    by (subst split.simps) simp
  show ?thesis
    by (subst split.simps) (simp add: h t)
qed

fun join :: "jsstring list \<Rightarrow> jsstring" where
  "join [] = []"
| "join [l] = l"
| "join (l # m # ls) = l @ 10 # join (m # ls)"

subsection \<open>Global regular-expression replacement\<close>

text \<open>
  \<^verbatim>\<open>s.replace(/re/g, fn)\<close>: the text is scanned from left to right; at each position
  the expression is tried; where it matches, the matched text is replaced by what the
  callback returns and the scan resumes after the match; where it does not, the code
  unit is copied and the scan moves one position on. The matcher \<open>m\<close> is given the code
  unit before the position (for the lookbehind of the line-comment expression) and the
  rest of the text, and returns the length of the match. Every expression of the
  source needs at least two code units, so there are no empty matches.
\<close>

function replace_g ::
  "(cu option \<Rightarrow> jsstring \<Rightarrow> nat option) \<Rightarrow> (jsstring \<Rightarrow> jsstring) \<Rightarrow> cu option \<Rightarrow> jsstring \<Rightarrow> jsstring"
where
  "replace_g m f prev [] = []"
| "replace_g m f prev (c # s) =
     (case m prev (c # s) of
        None \<Rightarrow> c # replace_g m f (Some c) s
      | Some 0 \<Rightarrow> c # replace_g m f (Some c) s
      | Some (Suc n) \<Rightarrow>
          f (c # take n s) @ replace_g m f (Some (last (c # take n s))) (drop n s))"
  by pat_completeness auto
termination
  by (relation "measure (\<lambda>(m, f, prev, s). length s)") auto

section \<open>Documentation and line comments (lines 134-138)\<close>

text \<open>\<^verbatim>\<open>/\/\/\/[^\n]*/g\<close> and \<^verbatim>\<open>/(?<!:)\/\/[^\n]*/g\<close>, each replaced by the empty string.\<close>

definition doc_comment :: "cu option \<Rightarrow> jsstring \<Rightarrow> nat option" where
  "doc_comment prev s =
     (if startsWith s (js ''///'')
      then Some (3 + length (takeWhile (\<lambda>c. c \<noteq> 10) (drop 3 s))) else None)"

definition line_comment :: "cu option \<Rightarrow> jsstring \<Rightarrow> nat option" where
  "line_comment prev s =
     (if prev \<noteq> Some 58 \<and> startsWith s (js ''//'')
      then Some (2 + length (takeWhile (\<lambda>c. c \<noteq> 10) (drop 2 s))) else None)"

definition strip_doc :: "jsstring \<Rightarrow> jsstring" where
  "strip_doc s = replace_g doc_comment (\<lambda>_. []) None s"

definition strip_line :: "jsstring \<Rightarrow> jsstring" where
  "strip_line s = replace_g line_comment (\<lambda>_. []) None s"

section \<open>Block comments (lines 140-188)\<close>

text \<open>
  The inner \<^verbatim>\<open>while (stack.length > 0)\<close> loop. \<open>stack\<close> holds the offsets of the open
  \<^verbatim>\<open>/*\<close> (pushed at the end, popped from the end, \<^verbatim>\<open>stack[0]\<close> its head). The loop
  ends with an empty stack; it returns the text and \<^verbatim>\<open>lastIndex\<close> as they are then.
\<close>

function strip_nested :: "jsstring \<Rightarrow> nat list \<Rightarrow> nat \<Rightarrow> jsstring \<times> nat" where
  "strip_nested content stack lastIndex =
     (if stack = [] then (content, lastIndex)
      else
        let nextStart = indexOf content (js ''/*'') lastIndex;
            nextEnd = indexOf content (js ''*/'') lastIndex
        in case nextEnd of
             None \<Rightarrow>
               (take (hd stack) content @ 10 # join (tl (split (drop (hd stack) content))),
                lastIndex)
           | Some e \<Rightarrow>
               if nextStart \<noteq> None \<and> the nextStart < e
               then strip_nested content (stack @ [the nextStart]) (the nextStart + 2)
               else
                 let start = last stack; stack' = butlast stack
                 in if stack' = []
                    then (trimEnd (take start content) @ drop (e + 2) content, start)
                    else strip_nested content stack' (e + 2))"
  by pat_completeness auto

lemma search_bounds: "search s p = Some i \<Longrightarrow> i + length p \<le> length s"
proof (induction s arbitrary: i)
  case Nil
  then show ?case by (simp split: if_splits)
next
  case (Cons c s)
  have sw: "\<And>(t::'a list) q. startsWith t q \<Longrightarrow> length q \<le> length t"
  proof -
    fix t q :: "'a list"
    show "startsWith t q \<Longrightarrow> length q \<le> length t"
      by (induction t q rule: startsWith.induct) auto
  qed
  show ?case
  proof (cases "startsWith (c # s) p")
    case True
    with Cons.prems sw [of "c # s" p] show ?thesis by simp
  next
    case False
    with Cons.prems obtain j where "search s p = Some j" "i = Suc j" by auto
    with Cons.IH [of j] show ?thesis by simp
  qed
qed

lemma indexOf_bounds:
  assumes "indexOf s p pos = Some i" and "p \<noteq> []"
  shows "pos \<le> i \<and> i + length p \<le> length s"
proof -
  from assms(1) obtain j where j: "search (drop pos s) p = Some j" "i = j + min pos (length s)"
    by (auto simp: indexOf_def)
  from search_bounds [OF j(1)] have b: "j + length p \<le> length s - pos" by simp
  with assms(2) have "pos < length s" by (cases "pos < length s") auto
  with j(2) b show ?thesis by auto
qed

termination strip_nested
proof (relation "measure (\<lambda>(content, stack, lastIndex).
         2 * (length content + 2 - lastIndex) + length stack)", goal_cases)
  case 1
  show ?case by simp
next
  case (2 content stack lastIndex nextStart nextEnd e)
  then obtain ns where ns: "indexOf content (js ''/*'') lastIndex = Some ns" by auto
  from indexOf_bounds [OF ns] have "lastIndex \<le> ns" "ns + 2 \<le> length content"
    by (simp_all add: js_def)
  with 2 ns show ?case by simp
next
  case (3 content stack lastIndex nextStart nextEnd e start stack')
  then have e: "indexOf content (js ''*/'') lastIndex = Some e" by simp
  from indexOf_bounds [OF e] have "lastIndex \<le> e" "e + 2 \<le> length content"
    by (simp_all add: js_def)
  moreover from 3 have "length stack' < length stack" by simp
  ultimately show ?case by simp
qed

text \<open>
  The outer \<^verbatim>\<open>while (true)\<close> loop. Each round that does not leave the loop runs the
  inner loop from the stack \<open>[startIndex]\<close>, which returns a strictly shorter text:
  that is why the loop ends.
\<close>

lemma startsWith_length: "startsWith t q \<Longrightarrow> length q \<le> length t"
  by (induction t q rule: startsWith.induct) auto

lemma split_nonempty: "split s \<noteq> []"
  by (subst split.simps) simp

lemma join_split: "join (split s) = s"
proof (induction s)
  case Nil
  show ?case by simp
next
  case (Cons c s)
  obtain l ls where sp: "split s = l # ls"
    using split_nonempty [of s] by (cases "split s") auto
  with Cons show ?case by (cases ls) (auto simp: split_Cons)
qed

lemma length_join_Cons: "length l + length (join ls) \<le> length (join (l # ls))"
  by (cases ls) auto

lemma length_join_tl_split:
  assumes "startsWith x (js ''/*'')"
  shows "length (join (tl (split x))) + 2 \<le> length x"
proof -
  from assms obtain y where x: "x = 47 # 42 # y"
    by (cases x; cases "tl x") (auto simp: js_def)
  define l where "l = hd (split (42 # y))"
  define ls where "ls = tl (split (42 # y))"
  have sp: "split (42 # y) = l # ls"
    using split_nonempty [of "42 # y"] by (simp add: l_def ls_def)
  have l: "l \<noteq> []" by (simp add: l_def split_Cons)
  have "join (split (42 # y)) = 42 # y" by (rule join_split)
  with sp have len: "length (join (l # ls)) = Suc (length y)" by simp
  from length_join_Cons [of l ls] l len have "length (join ls) \<le> length y"
    by (cases l) auto
  moreover have "tl (split x) = ls" by (simp add: x ls_def split_Cons)
  ultimately show ?thesis by (simp add: x)
qed

lemma search_startsWith: "search s p = Some i \<Longrightarrow> startsWith (drop i s) p"
proof (induction s arbitrary: i)
  case Nil
  then show ?case by (simp split: if_splits)
next
  case (Cons c s)
  then show ?case by (cases "startsWith (c # s) p") auto
qed

lemma indexOf_startsWith:
  assumes "indexOf s p pos = Some i" and "p \<noteq> []"
  shows "startsWith (drop i s) p"
proof -
  from assms(1) obtain j where j: "search (drop pos s) p = Some j" "i = j + min pos (length s)"
    by (auto simp: indexOf_def)
  from search_bounds [OF j(1)] assms(2) have "pos < length s" by (cases "pos < length s") auto
  with j(2) have "drop i s = drop j (drop pos s)" by (simp add: add.commute)
  with search_startsWith [OF j(1)] show ?thesis by simp
qed

lemma length_trimEnd: "length (trimEnd s) \<le> length s"
  unfolding trimEnd_def using length_dropWhile_le [of is_ws "rev s"] by simp

lemma strip_nested_shorter:
  "strip_nested content stack lastIndex = (content', lastIndex') \<Longrightarrow> stack \<noteq> [] \<Longrightarrow>
   (\<forall>i \<in> set stack. i \<le> lastIndex) \<Longrightarrow> startsWith (drop (hd stack) content) (js ''/*'') \<Longrightarrow>
   length content' < length content"
proof (induction content stack lastIndex rule: strip_nested.induct)
  case (1 content stack lastIndex)
  note ne = \<open>stack \<noteq> []\<close> and le = \<open>\<forall>i \<in> set stack. i \<le> lastIndex\<close>
    and sw = \<open>startsWith (drop (hd stack) content) (js ''/*'')\<close>
  show ?case
  proof (cases "indexOf content (js ''*/'') lastIndex")
    case None
    with "1.prems"(1) ne
    have c': "content' = take (hd stack) content @ 10 # join (tl (split (drop (hd stack) content)))"
      by (simp add: Let_def)
    from startsWith_length [OF sw] have h: "hd stack + 2 \<le> length content"
      by (simp add: js_def)
    from length_join_tl_split [OF sw]
    have "length (join (tl (split (drop (hd stack) content)))) + 2 \<le> length content - hd stack"
      by simp
    with c' h show ?thesis by simp
  next
    case (Some e)
    from indexOf_bounds [OF Some] have e: "lastIndex \<le> e" "e + 2 \<le> length content"
      by (simp_all add: js_def)
    show ?thesis
    proof (cases "indexOf content (js ''/*'') lastIndex \<noteq> None
                  \<and> the (indexOf content (js ''/*'') lastIndex) < e")
      case True
      define ns where "ns = the (indexOf content (js ''/*'') lastIndex)"
      from True have ns: "indexOf content (js ''/*'') lastIndex = Some ns" "ns < e"
        by (auto simp: ns_def)
      from indexOf_bounds [OF ns(1)] have b: "lastIndex \<le> ns" by (simp add: js_def)
      from "1.prems"(1) ne Some ns
      have eq: "strip_nested content (stack @ [ns]) (ns + 2) = (content', lastIndex')"
        by (simp add: Let_def)
      have i1: "\<forall>i\<in>set (stack @ [ns]). i \<le> ns + 2"
        using le b by auto
      have i2: "startsWith (drop (hd (stack @ [ns])) content) (js ''/*'')"
        using sw ne by simp
      from "1.IH"(1) [OF ne refl refl Some True] eq i1 i2 show ?thesis
        by (simp add: ns_def)
    next
      case False
      show ?thesis
      proof (cases "butlast stack = []")
        case True
        with "1.prems"(1) ne Some False
        have c': "content' = trimEnd (take (last stack) content) @ drop (e + 2) content"
          by (auto simp add: Let_def split: if_splits)
        from ne le have "last stack \<le> lastIndex" by simp
        with e have "last stack < e + 2" by simp
        moreover have "length (trimEnd (take (last stack) content)) \<le> last stack"
          using length_trimEnd [of "take (last stack) content"] by simp
        ultimately show ?thesis using c' e by simp
      next
        case bl: False
        with "1.prems"(1) ne Some False
        have eq: "strip_nested content (butlast stack) (e + 2) = (content', lastIndex')"
          by (simp add: Let_def split: if_splits)
        have hd: "hd (butlast stack) = hd stack"
          using bl by (cases stack) auto
        have i1: "\<forall>i\<in>set (butlast stack). i \<le> e + 2"
        proof
          fix i assume "i \<in> set (butlast stack)"
          then have "i \<in> set stack" by (rule in_set_butlastD)
          with le have "i \<le> lastIndex" by simp
          with e show "i \<le> e + 2" by simp
        qed
        have i2: "startsWith (drop (hd (butlast stack)) content) (js ''/*'')"
          using sw hd by simp
        from "1.IH"(2) [OF ne refl refl Some False refl refl bl eq bl i1 i2]
        show ?thesis .
      qed
    qed
  qed
qed

function strip_block_from :: "jsstring \<Rightarrow> nat \<Rightarrow> jsstring" where
  "strip_block_from content lastIndex =
     (case indexOf content (js ''/*'') lastIndex of
        None \<Rightarrow> content
      | Some startIndex \<Rightarrow>
          (case indexOf content (js ''*/'') (startIndex + 2) of
             None \<Rightarrow>
               trimEnd (take startIndex content)
                 @ 10 # join (tl (split (drop startIndex content)))
           | Some endIndex \<Rightarrow>
               (case strip_nested content [startIndex] (startIndex + 2) of
                  (content', lastIndex') \<Rightarrow> strip_block_from content' lastIndex')))"
  by pat_completeness auto
termination
proof (relation "measure (\<lambda>(content, lastIndex). length content)", goal_cases)
  case 1
  show ?case by simp
next
  case (2 content lastIndex startIndex endIndex content' lastIndex')
  from indexOf_startsWith [OF 2(1)]
  have sw: "startsWith (drop (hd [startIndex]) content) (js ''/*'')" by (simp add: js_def)
  from 2 have eq: "strip_nested content [startIndex] (startIndex + 2) = (content', lastIndex')"
    by simp
  have "length content' < length content"
    by (rule strip_nested_shorter [OF eq _ _ sw]) simp_all
  then show ?case by simp
qed

definition strip_block :: "jsstring \<Rightarrow> jsstring" where
  "strip_block content = strip_block_from content 0"

section \<open>The table of preserved strings (lines 30, 128-131, 190-193)\<close>

text \<open>
  \<^verbatim>\<open>preservedStrings\<close> is a JavaScript array: an element is a string or a hole
  (\<open>None\<close>, read as \<^verbatim>\<open>undefined\<close>). Writing at or beyond the length extends the array.
\<close>

type_synonym jsarray = "jsstring option list"

definition array_set :: "jsarray \<Rightarrow> nat \<Rightarrow> jsstring \<Rightarrow> jsarray" where
  "array_set a i v =
     (if i < length a then a[i := Some v]
      else a @ replicate (i - length a) None @ [Some v])"

text \<open>
  \<^verbatim>\<open>preservedStrings[index]\<close> where \<^verbatim>\<open>index\<close> is the text the group \<^verbatim>\<open>(\d+)\<close>
  captured: a property key. It names an element only when it is the canonical decimal
  form of a number (no leading zero) below the length (a JavaScript array is shorter
  than \<open>2^32\<close>, so such a key is an array index); any other key is not a property of
  the array and reads \<^verbatim>\<open>undefined\<close>.
\<close>

definition to_number :: "jsstring \<Rightarrow> nat" where
  "to_number ds = foldl (\<lambda>n d. 10 * n + (d - 48)) 0 ds"

definition array_get :: "jsarray \<Rightarrow> jsstring \<Rightarrow> jsstring option" where
  "array_get a key =
     (if (key = [48] \<or> (key \<noteq> [] \<and> hd key \<noteq> 48)) \<and> to_number key < length a
      then a ! to_number key else None)"

text \<open>What a replacement callback's result becomes in the text: \<^verbatim>\<open>String(v)\<close>.\<close>

definition to_string :: "jsstring option \<Rightarrow> jsstring" where
  "to_string v = (case v of None \<Rightarrow> js ''undefined'' | Some s \<Rightarrow> s)"

text \<open>The decimal form of a number, as the template \<^verbatim>\<open>`PRESERVED_STRING_${stringIndex}`\<close> writes it.\<close>

fun decimal :: "nat \<Rightarrow> jsstring" where
  "decimal n = (if n < 10 then [48 + n] else decimal (n div 10) @ [48 + n mod 10])"

text \<open>\<^verbatim>\<open>/PRESERVED_STRING_(\d+)/g\<close> and the restoring pass.\<close>

definition placeholder :: "cu option \<Rightarrow> jsstring \<Rightarrow> nat option" where
  "placeholder prev s =
     (if startsWith s (js ''PRESERVED_STRING_'') \<and> takeWhile is_digit (drop 17 s) \<noteq> []
      then Some (17 + length (takeWhile is_digit (drop 17 s))) else None)"

definition restore :: "jsarray \<Rightarrow> jsstring \<Rightarrow> jsstring" where
  "restore preservedStrings s =
     replace_g placeholder (\<lambda>m. to_string (array_get preservedStrings (drop 17 m))) None s"

section \<open>String literals (lines 37-132)\<close>

subsection \<open>The string-literal expression\<close>

text \<open>
  \<^verbatim>\<open>"""[\s\S]*?"""\<close> for the quote \<open>q\<close>, tried at the start of \<open>s\<close>: three quotes, then
  the nearest three quotes after them. The result is the length of the match.
\<close>

definition triple_quoted :: "cu \<Rightarrow> jsstring \<Rightarrow> nat option" where
  "triple_quoted q s =
     (if startsWith s [q, q, q]
      then map_option (\<lambda>k. k + 6) (search (drop 3 s) [q, q, q]) else None)"

text \<open>
  \<^verbatim>\<open>[^'\\]*(?:\\.[^'\\]*)*'\<close> for the quote \<open>q\<close>, after the opening quote: a backslash takes
  the next code unit with it unless that is a line terminator (\<^verbatim>\<open>.\<close> does not match
  one); the first quote not taken so ends the literal. The classes are disjoint, so
  backtracking finds no other match.
\<close>

fun quoted_body :: "cu \<Rightarrow> jsstring \<Rightarrow> nat option" where
  "quoted_body q [] = None"
| "quoted_body q [c] = (if c = q then Some 1 else None)"
| "quoted_body q (c # d # s) =
     (if c = q then Some 1
      else if c = 92
        then (if is_line_terminator d then None
              else map_option (\<lambda>n. n + 2) (quoted_body q s))
      else map_option Suc (quoted_body q (d # s)))"

definition single_quoted :: "cu \<Rightarrow> jsstring \<Rightarrow> nat option" where
  "single_quoted q s =
     (case s of [] \<Rightarrow> None
      | c # s' \<Rightarrow> if c = q then map_option Suc (quoted_body q s') else None)"

text \<open>\<^verbatim>\<open>r?\<close> before an alternative: with the \<^verbatim>\<open>r\<close> first, without it otherwise.\<close>

definition optional_r :: "(jsstring \<Rightarrow> nat option) \<Rightarrow> jsstring \<Rightarrow> nat option" where
  "optional_r body s =
     (case (case s of [] \<Rightarrow> None
            | c # s' \<Rightarrow> if c = 114 then map_option Suc (body s') else None) of
        Some n \<Rightarrow> Some n
      | None \<Rightarrow> body s)"

text \<open>The four alternatives in the order of the source: the first that matches wins.\<close>

definition string_literal :: "jsstring \<Rightarrow> nat option" where
  "string_literal s =
     (case optional_r (triple_quoted 34) s of
        Some n \<Rightarrow> Some n
      | None \<Rightarrow>
          (case optional_r (triple_quoted 39) s of
             Some n \<Rightarrow> Some n
           | None \<Rightarrow>
               (case optional_r (single_quoted 39) s of
                  Some n \<Rightarrow> Some n
                | None \<Rightarrow> optional_r (single_quoted 34) s)))"

subsection \<open>Interpolation holes inside a literal (lines 40-126)\<close>

text \<open>
  \<^verbatim>\<open>/\$\{([^}]+)\}/g\<close>; the group \<^verbatim>\<open>expr\<close> of a match is the match without its first
  two and its last code unit.
\<close>

definition interpolationRegex :: "cu option \<Rightarrow> jsstring \<Rightarrow> nat option" where
  "interpolationRegex prev s =
     (if startsWith s (js ''${'')
      then (let n = length (takeWhile (\<lambda>c. c \<noteq> 125) (drop 2 s))
            in if 0 < n \<and> startsWith (drop (2 + n) s) [125] then Some (n + 3) else None)
      else None)"

text \<open>\<^verbatim>\<open>/\/\*[\s\S]*?\*\//g\<close>: the block comments of a hole, not nested.\<close>

definition block_comment :: "cu option \<Rightarrow> jsstring \<Rightarrow> nat option" where
  "block_comment prev s =
     (if startsWith s (js ''/*'')
      then map_option (\<lambda>k. k + 4) (search (drop 2 s) (js ''*/'')) else None)"

definition cleanExpr :: "jsstring \<Rightarrow> jsstring" where
  "cleanExpr expr = replace_g block_comment (\<lambda>_. []) None (strip_line (strip_doc expr))"

text \<open>The callback of the raw branch (lines 47-76).\<close>

definition raw_hole :: "jsstring \<Rightarrow> jsstring" where
  "raw_hole fullMatch =
     (let expr = butlast (drop 2 fullMatch) in
      if js_includes expr (js ''${'') \<or> js_includes expr (js ''/*'')
         \<or> js_includes expr (js ''//'')
      then fullMatch
      else
        let lines = split expr;
            baseIndent = leading_ws (hd lines);
            lastIndent = leading_ws (last lines)
        in if js_includes expr [10]
           then
             let processedLines =
                   filter (\<lambda>l. l \<noteq> [])
                     (map (\<lambda>line. let trimmed = trim line
                                   in if trimmed = [] then [] else baseIndent @ trimmed)
                        (split (cleanExpr expr)))
             in js ''${'' @ [10] @ join processedLines @ [10] @ lastIndent @ js ''}''
           else js ''${'' @ trim (cleanExpr expr) @ js ''}'')"

text \<open>The callback of the other branch (lines 82-123), with its own test of \<^verbatim>\<open>isRawString\<close>.\<close>

definition hole :: "bool \<Rightarrow> jsstring \<Rightarrow> jsstring" where
  "hole isRawString fullMatch =
     (let expr = butlast (drop 2 fullMatch);
          lines = split expr;
          baseIndent = leading_ws (hd lines);
          lastIndent = leading_ws (last lines)
      in if isRawString
         then (if js_includes expr [10]
               then js ''${'' @ [10] @ expr @ [10] @ lastIndent @ js ''}''
               else fullMatch)
         else if js_includes expr [10]
           then
             let processedLines =
                   filter (\<lambda>l. l \<noteq> [])
                     (map (\<lambda>line.
                             let trimmed = trim line
                             in if trimmed = [] then []
                                else (case find (\<lambda>l. trim l \<noteq> [] \<and> js_includes l trimmed) lines of
                                        Some originalLine \<Rightarrow> leading_ws originalLine @ trimmed
                                      | None \<Rightarrow> baseIndent @ trimmed))
                        (split (cleanExpr expr)))
             in js ''${'' @ [10] @ join processedLines @ [10] @ lastIndent @ js ''}''
           else js ''${'' @ trim (cleanExpr expr) @ js ''}'')"

subsection \<open>The callback of the string-literal pass and the pass itself\<close>

text \<open>
  The state of the pass is \<^verbatim>\<open>preservedStrings\<close> and \<^verbatim>\<open>stringIndex\<close>. A literal with
  \<^verbatim>\<open>${\<close> is rewritten in place and goes back into the text; any other literal is stored
  and replaced by its placeholder.
\<close>

definition on_string :: "jsarray \<times> nat \<Rightarrow> jsstring \<Rightarrow> (jsarray \<times> nat) \<times> jsstring" where
  "on_string st match =
     (if js_includes match (js ''${'')
      then
        (let isRawString = startsWith match (js ''r'')
         in if isRawString then (st, replace_g interpolationRegex raw_hole None match)
            else (st, replace_g interpolationRegex (hole isRawString) None match))
      else
        (case st of (preservedStrings, stringIndex) \<Rightarrow>
           ((array_set preservedStrings stringIndex match, stringIndex + 1),
            js ''PRESERVED_STRING_'' @ decimal stringIndex)))"

function replace_strings :: "jsarray \<times> nat \<Rightarrow> jsstring \<Rightarrow> (jsarray \<times> nat) \<times> jsstring" where
  "replace_strings st [] = (st, [])"
| "replace_strings st (c # s) =
     (case string_literal (c # s) of
        None \<Rightarrow> (case replace_strings st s of (st', out) \<Rightarrow> (st', c # out))
      | Some 0 \<Rightarrow> (case replace_strings st s of (st', out) \<Rightarrow> (st', c # out))
      | Some (Suc n) \<Rightarrow>
          (case on_string st (c # take n s) of
             (st', r) \<Rightarrow>
               (case replace_strings st' (drop n s) of (st'', out) \<Rightarrow> (st'', r @ out))))"
  by pat_completeness auto
termination
  by (relation "measure (\<lambda>(st, s). length s)") auto

section \<open>The formatting pass (lines 195-242)\<close>

text \<open>The test of lines 219-221 on the trimmed line.\<close>

definition marked :: "jsstring \<Rightarrow> bool" where
  "marked trimmedLine \<longleftrightarrow>
     js_includes trimmedLine (js ''PRESERVED_STRING_'')
     \<or> js_includes trimmedLine [34, 34, 34]
     \<or> js_includes trimmedLine [39, 39, 39]"

text \<open>
  The callback of \<^verbatim>\<open>map\<close>: \<open>None\<close> is \<^verbatim>\<open>null\<close>. \<^verbatim>\<open>arr[index - 1]\<close> and
  \<^verbatim>\<open>arr[index + 1]\<close> are \<^verbatim>\<open>undefined\<close> outside the array, and every test on them is then
  false.
\<close>

definition format_line :: "jsstring list \<Rightarrow> nat \<Rightarrow> jsstring option" where
  "format_line arr index =
     (let line = arr ! index;
          originalIndent = leading_ws line;
          trimmedLine = trim line
      in if trimmedLine = []
         then
           (let prevLine = (if index = 0 then None else Some (arr ! (index - 1)));
                nextLine = (if index + 1 < length arr then Some (arr ! (index + 1)) else None)
            in case (prevLine, nextLine) of
                 (Some p, Some n) \<Rightarrow>
                   if (endsWith (trim p) (js '')'') \<or> endsWith (trim p) (js ''}''))
                      \<and> startsWith (trim n) (js ''.'')
                   then None
                   else if trim p \<noteq> [] \<and> trim n \<noteq> []
                           \<and> \<not> endsWith (trim p) (js ''{'')
                           \<and> \<not> startsWith (trim n) (js ''}'')
                   then Some originalIndent
                   else None
               | _ \<Rightarrow> None)
         else if marked trimmedLine
         then Some line
         else Some (originalIndent @ trimmedLine))"

text \<open>The callback of \<^verbatim>\<open>filter\<close>, on the array \<^verbatim>\<open>map\<close> returned.\<close>

definition keep_line :: "jsstring option list \<Rightarrow> nat \<Rightarrow> bool" where
  "keep_line arr index =
     (case arr ! index of
        None \<Rightarrow> False
      | Some line \<Rightarrow>
          if trim line = []
          then
            (let nonEmpty = (\<lambda>l. case l of None \<Rightarrow> False | Some t \<Rightarrow> trim t \<noteq> []);
                 prevNonEmpty = find nonEmpty (rev (take index arr));
                 nextNonEmpty = find nonEmpty (drop (index + 1) arr)
             in case (prevNonEmpty, nextNonEmpty) of
                  (Some (Some p), Some (Some n)) \<Rightarrow>
                    \<not> endsWith (trim p) (js ''{'') \<and> \<not> startsWith (trim n) (js ''}'')
                | _ \<Rightarrow> False)
          else True)"

definition format_lines :: "jsstring list \<Rightarrow> jsstring list" where
  "format_lines lines =
     (let mapped = map (format_line lines) [0..<length lines]
      in List.map_filter (\<lambda>i. if keep_line mapped i then mapped ! i else None)
           [0..<length mapped])"

definition format :: "jsstring \<Rightarrow> jsstring" where
  "format content = join (format_lines (split content))"

section \<open>The transformation of one file (lines 34-242)\<close>

text \<open>
  The body of the loop over the files, from the text read to the text that is written
  back; \<open>before_format\<close> is the text as it enters the formatting pass.
  \<^verbatim>\<open>preservedStrings\<close> is declared before the loop (line 30), so it comes in from the
  files before and goes out to the files after; \<^verbatim>\<open>stringIndex\<close> starts at 0.
\<close>

definition strip_comments :: "jsstring \<Rightarrow> jsstring" where
  "strip_comments content = strip_block (strip_line (strip_doc content))"

definition before_format :: "jsarray \<Rightarrow> jsstring \<Rightarrow> jsarray \<times> jsstring" where
  "before_format preservedStrings content =
     (case replace_strings (preservedStrings, 0) content of
        ((preservedStrings', stringIndex), c1) \<Rightarrow>
          (preservedStrings', restore preservedStrings' (strip_comments c1)))"

definition process_file :: "jsarray \<Rightarrow> jsstring \<Rightarrow> jsarray \<times> jsstring" where
  "process_file preservedStrings content =
     (case before_format preservedStrings content of
        (preservedStrings', c) \<Rightarrow> (preservedStrings', format c))"

text \<open>The first file of a run meets an empty table.\<close>

definition process :: "jsstring \<Rightarrow> jsstring" where
  "process content = snd (process_file [] content)"

text \<open>A literal for the statements below: a body between single quotes.\<close>

definition sq :: "jsstring \<Rightarrow> jsstring" where
  "sq body = 39 # body @ [39]"


section \<open>Notions used in the statements and proofs\<close>

text \<open>The number of quote characters (single or double) of a text.\<close>

definition quotes :: "jsstring \<Rightarrow> nat" where
  "quotes s = length (filter (\<lambda>c. c = 34 \<or> c = 39) s)"

text \<open>What the callback of \<open>map\<close> returns for a line between two neighbours.\<close>

definition line_result ::
  "jsstring option \<Rightarrow> jsstring \<Rightarrow> jsstring option \<Rightarrow> jsstring option" where
  "line_result prevLine line nextLine =
     (if trim line = []
      then (case (prevLine, nextLine) of
              (Some p, Some n) \<Rightarrow>
                if (endsWith (trim p) (js '')'') \<or> endsWith (trim p) (js ''}''))
                   \<and> startsWith (trim n) (js ''.'')
                then None
                else if trim p \<noteq> [] \<and> trim n \<noteq> []
                        \<and> \<not> endsWith (trim p) (js ''{'')
                        \<and> \<not> startsWith (trim n) (js ''}'')
                then Some (leading_ws line)
                else None
            | _ \<Rightarrow> None)
      else if marked (trim line) then Some line
      else Some (leading_ws line @ trim line))"

text \<open>
  The formatting pass as a recursion over the lines: \<open>prev\<close> is the line before in the
  text that entered the pass (\<open>format_lines_fmt\<close> below proves that this is what
  \<open>format_lines\<close> computes).
\<close>

fun fmt :: "jsstring option \<Rightarrow> jsstring list \<Rightarrow> jsstring list" where
  "fmt prev [] = []"
| "fmt prev (l # ls) =
     (case line_result prev l (case ls of [] \<Rightarrow> None | n # _ \<Rightarrow> Some n) of
        None \<Rightarrow> fmt (Some l) ls
      | Some r \<Rightarrow> r # fmt (Some l) ls)"

text \<open>The text before the first occurrence of \<open>p\<close>.\<close>

fun before :: "jsstring \<Rightarrow> jsstring \<Rightarrow> jsstring" where
  "before p [] = []"
| "before p (c # s) = (if startsWith (c # s) p then [] else c # before p s)"

section \<open>Properties of the passes\<close>

subsection \<open>Passes that find nothing to replace\<close>

lemma search_None_Cons:
  "search (c # s) p = None \<longleftrightarrow> \<not> startsWith (c # s) p \<and> search s p = None"
  by simp

lemma not_includes_Cons:
  "\<not> js_includes (c # s) p \<longleftrightarrow> \<not> startsWith (c # s) p \<and> \<not> js_includes s p"
  by (simp add: js_includes_def)

lemma startsWith_append: "startsWith s (p @ q) \<Longrightarrow> startsWith s p"
  by (induction s p rule: startsWith.induct) auto

lemma replace_g_no_match:
  "(\<And>t p. suffix t s \<Longrightarrow> m p t = None) \<Longrightarrow> replace_g m f prev s = s"
proof (induction s arbitrary: prev)
  case Nil
  show ?case by simp
next
  case (Cons c s)
  have "m prev (c # s) = None" by (rule Cons.prems) simp
  moreover have "replace_g m f (Some c) s = s"
    by (rule Cons.IH) (simp add: Cons.prems suffix_Cons)
  ultimately show ?case by simp
qed

lemma not_includes_suffix:
  "\<not> js_includes s p \<Longrightarrow> suffix t s \<Longrightarrow> \<not> startsWith t p"
proof (induction s)
  case Nil
  then show ?case by (cases p) (auto simp: js_includes_def)
next
  case (Cons c s)
  then show ?case by (auto simp: not_includes_Cons suffix_Cons)
qed

lemma strip_doc_no_slashes:
  assumes "\<not> js_includes s (js ''//'')"
  shows "strip_doc s = s"
  unfolding strip_doc_def
proof (rule replace_g_no_match)
  fix t p assume "suffix t s"
  with assms have "\<not> startsWith t (js ''//'')" by (rule not_includes_suffix)
  then have "\<not> startsWith t (js ''///'')"
    using startsWith_append [of t "js ''//''" "js ''/''"] by (auto simp: js_def)
  then show "doc_comment p t = None" by (simp add: doc_comment_def)
qed

lemma strip_line_no_slashes:
  assumes "\<not> js_includes s (js ''//'')"
  shows "strip_line s = s"
  unfolding strip_line_def
proof (rule replace_g_no_match)
  fix t p assume "suffix t s"
  with assms have "\<not> startsWith t (js ''//'')" by (rule not_includes_suffix)
  then show "line_comment p t = None" by (simp add: line_comment_def)
qed

lemma strip_block_no_opener:
  assumes "\<not> js_includes s (js ''/*'')"
  shows "strip_block s = s"
proof -
  from assms have "indexOf s (js ''/*'') 0 = None"
    by (simp add: indexOf_def js_includes_def)
  then show ?thesis by (simp add: strip_block_def strip_block_from.simps)
qed

lemma strip_comments_none:
  assumes "\<not> js_includes s (js ''//'')" and "\<not> js_includes s (js ''/*'')"
  shows "strip_comments s = s"
  using assms
  by (simp add: strip_comments_def strip_doc_no_slashes strip_line_no_slashes strip_block_no_opener)

lemma restore_no_placeholder:
  assumes "\<not> js_includes s (js ''PRESERVED_STRING_'')"
  shows "restore ps s = s"
  unfolding restore_def
proof (rule replace_g_no_match)
  fix t p assume "suffix t s"
  with assms have "\<not> startsWith t (js ''PRESERVED_STRING_'')" by (rule not_includes_suffix)
  then show "placeholder p t = None" by (simp add: placeholder_def)
qed

subsection \<open>Texts with at most one quote character hold no string literal\<close>

lemma quotes_Cons: "quotes (c # s) = (if c = 34 \<or> c = 39 then Suc (quotes s) else quotes s)"
  by (simp add: quotes_def)

lemma quotes_suffix: "suffix t s \<Longrightarrow> quotes t \<le> quotes s"
  by (auto simp: suffix_def quotes_def)

lemma quoted_body_quote: "quoted_body q s = Some n \<Longrightarrow> q \<in> set s"
  by (induction q s arbitrary: n rule: quoted_body.induct) (auto split: if_splits)

lemma single_quoted_quotes:
  assumes "single_quoted q s = Some n" and "q = 34 \<or> q = 39"
  shows "2 \<le> quotes s"
proof -
  from assms(1) obtain s' k where s: "s = q # s'" and k: "quoted_body q s' = Some k"
    by (auto simp: single_quoted_def split: list.splits if_splits)
  from quoted_body_quote [OF k] have "q \<in> set s'" .
  with assms(2) have "filter (\<lambda>c. c = 34 \<or> c = 39) s' \<noteq> []"
    by (auto simp: filter_empty_conv)
  then have "1 \<le> quotes s'" by (cases "filter (\<lambda>c. c = 34 \<or> c = 39) s'") (auto simp: quotes_def)
  with s assms(2) show ?thesis by (auto simp: quotes_Cons)
qed

lemma triple_quoted_quotes:
  assumes "triple_quoted q s = Some n" and "q = 34 \<or> q = 39"
  shows "2 \<le> quotes s"
proof -
  from assms(1) have "startsWith s [q, q, q]"
    by (auto simp: triple_quoted_def split: if_splits)
  then obtain s' where "s = q # q # s'"
    by (cases s; cases "tl s") auto
  with assms(2) show ?thesis by (auto simp: quotes_Cons)
qed

lemma optional_r_quotes:
  assumes "optional_r body s = Some n" and "\<And>t k. body t = Some k \<Longrightarrow> 2 \<le> quotes t"
  shows "2 \<le> quotes s"
proof (cases "body s")
  case (Some k)
  then show ?thesis by (rule assms(2))
next
  case None
  with assms(1) obtain s' k where "s = 114 # s'" "body s' = Some k"
    by (auto simp: optional_r_def split: list.splits if_splits option.splits)
  with assms(2) [of s' k] show ?thesis by (simp add: quotes_Cons)
qed

lemma string_literal_quotes:
  assumes "string_literal s = Some n"
  shows "2 \<le> quotes s"
proof -
  from assms consider
      k where "optional_r (triple_quoted 34) s = Some k"
    | k where "optional_r (triple_quoted 39) s = Some k"
    | k where "optional_r (single_quoted 39) s = Some k"
    | k where "optional_r (single_quoted 34) s = Some k"
    by (auto simp: string_literal_def split: option.splits)
  then show ?thesis
  proof cases
    case 1 then show ?thesis by (rule optional_r_quotes) (rule triple_quoted_quotes, auto)
  next
    case 2 then show ?thesis by (rule optional_r_quotes) (rule triple_quoted_quotes, auto)
  next
    case 3 then show ?thesis by (rule optional_r_quotes) (rule single_quoted_quotes, auto)
  next
    case 4 then show ?thesis by (rule optional_r_quotes) (rule single_quoted_quotes, auto)
  qed
qed

lemma replace_strings_no_literal:
  "quotes s \<le> 1 \<Longrightarrow> replace_strings st s = (st, s)"
proof (induction s)
  case Nil
  show ?case by simp
next
  case (Cons c s)
  have "string_literal (c # s) = None"
  proof (cases "string_literal (c # s)")
    case (Some n)
    from string_literal_quotes [OF Some] Cons.prems show ?thesis by simp
  qed simp
  moreover from Cons.prems have "quotes s \<le> 1" by (simp add: quotes_Cons split: if_splits)
  ultimately show ?case using Cons.IH by simp
qed

section \<open>White space\<close>

lemma trim_Nil_iff: "trim s = [] \<longleftrightarrow> (\<forall>c \<in> set s. is_ws c)"
proof
  assume "trim s = []"
  then have a: "\<forall>c \<in> set (dropWhile is_ws s). is_ws c"
    by (simp add: trim_def trimEnd_def trimStart_def dropWhile_eq_Nil_conv)
  have "dropWhile is_ws s = []"
  proof (rule ccontr)
    assume ne: "dropWhile is_ws s \<noteq> []"
    then have "\<not> is_ws (hd (dropWhile is_ws s))" by (rule hd_dropWhile)
    moreover from ne have "hd (dropWhile is_ws s) \<in> set (dropWhile is_ws s)" by simp
    ultimately show False using a by blast
  qed
  then show "\<forall>c \<in> set s. is_ws c" by (simp add: dropWhile_eq_Nil_conv)
next
  assume "\<forall>c \<in> set s. is_ws c"
  then have d: "dropWhile is_ws s = []" by simp
  show "trim s = []" by (simp only: trim_def trimEnd_def trimStart_def d) simp
qed

lemma leading_ws_blank: "trim s = [] \<Longrightarrow> leading_ws s = s"
  by (simp add: trim_Nil_iff leading_ws_def)

lemma leading_ws_is_ws: "c \<in> set (leading_ws s) \<Longrightarrow> is_ws c"
  unfolding leading_ws_def by (rule set_takeWhileD [THEN conjunct2])

lemma trim_ws_append: "(\<forall>c \<in> set w. is_ws c) \<Longrightarrow> trim (w @ s) = trim s"
  by (simp add: trim_def trimStart_def dropWhile_append2)

lemma trim_hd: "trim s \<noteq> [] \<Longrightarrow> \<not> is_ws (hd (trim s))"
proof -
  assume ne: "trim s \<noteq> []"
  define u where "u = dropWhile is_ws s"
  have t: "trim s = rev (dropWhile is_ws (rev u))"
    by (simp add: trim_def trimEnd_def trimStart_def u_def)
  have "rev u = takeWhile is_ws (rev u) @ dropWhile is_ws (rev u)" by simp
  then have "u = rev (dropWhile is_ws (rev u)) @ rev (takeWhile is_ws (rev u))"
    by (metis rev_append rev_rev_ident)
  with t have u: "u = trim s @ rev (takeWhile is_ws (rev u))" by simp
  with ne have "u \<noteq> []" by auto
  then have "\<not> is_ws (hd u)" unfolding u_def by (rule hd_dropWhile)
  moreover from u ne have "hd u = hd (trim s)" by (metis hd_append2)
  ultimately show ?thesis by simp
qed

lemma trim_last: "trim s \<noteq> [] \<Longrightarrow> \<not> is_ws (last (trim s))"
proof -
  assume ne: "trim s \<noteq> []"
  define u where "u = dropWhile is_ws s"
  have t: "trim s = rev (dropWhile is_ws (rev u))"
    by (simp add: trim_def trimEnd_def trimStart_def u_def)
  with ne have "dropWhile is_ws (rev u) \<noteq> []" by simp
  then have "\<not> is_ws (hd (dropWhile is_ws (rev u)))" by (rule hd_dropWhile)
  with t ne show ?thesis by (simp add: last_rev)
qed

lemma trim_fixed:
  assumes "t \<noteq> []" and "\<not> is_ws (hd t)" and "\<not> is_ws (last t)"
  shows "trim t = t"
proof -
  from assms(1,2) have "dropWhile is_ws t = t" by (cases t) auto
  moreover from assms(1,3) have "dropWhile is_ws (rev t) = rev t"
    by (cases "rev t") (auto simp: hd_rev)
  ultimately show ?thesis by (simp add: trim_def trimEnd_def trimStart_def)
qed

lemma trim_trim: "trim (trim s) = trim s"
proof (cases "trim s = []")
  case True
  have "trim [] = []" by (simp add: trim_def trimEnd_def trimStart_def)
  with True show ?thesis by simp
next
  case False
  then show ?thesis by (intro trim_fixed trim_hd trim_last)
qed

lemma trim_indent: "trim (leading_ws l @ trim l) = trim l"
  using trim_ws_append [of "leading_ws l" "trim l"] leading_ws_is_ws trim_trim by auto

lemma leading_ws_indent:
  assumes "trim l \<noteq> []"
  shows "leading_ws (leading_ws l @ trim l) = leading_ws l"
proof -
  from trim_hd [OF assms] assms have "takeWhile is_ws (trim l) = []"
    by (cases "trim l") auto
  moreover have "\<forall>c \<in> set (leading_ws l). is_ws c" using leading_ws_is_ws by blast
  ultimately show ?thesis by (simp add: leading_ws_def takeWhile_append2)
qed

section \<open>The formatting pass, line by line\<close>

lemma format_line_result:
  "format_line arr index =
     line_result (if index = 0 then None else Some (arr ! (index - 1))) (arr ! index)
       (if index + 1 < length arr then Some (arr ! (index + 1)) else None)"
  by (simp add: format_line_def line_result_def Let_def)

lemma line_result_nonblank:
  assumes "trim l \<noteq> []"
  shows "line_result p l n = Some (if marked (trim l) then l else leading_ws l @ trim l)"
  using assms by (simp add: line_result_def)

lemma line_result_trim:
  assumes "line_result p l n = Some r"
  shows "trim r = trim l"
proof (cases "trim l = []")
  case True
  with assms have "r = leading_ws l"
    by (auto simp: line_result_def split: option.splits if_splits)
  with True show ?thesis by (simp add: leading_ws_blank)
next
  case False
  with assms show ?thesis by (auto simp: line_result_nonblank trim_indent split: if_splits)
qed

lemma line_result_blank:
  assumes "line_result p l n = Some r" and "trim l = []"
  shows "r = l \<and> (\<exists>pl nl. p = Some pl \<and> n = Some nl \<and> trim pl \<noteq> [] \<and> trim nl \<noteq> []
          \<and> \<not> endsWith (trim pl) (js ''{'') \<and> \<not> startsWith (trim nl) (js ''}''))"
  using assms by (auto simp: line_result_def leading_ws_blank split: option.splits if_splits)

lemma line_result_cong:
  assumes "map_option trim p = map_option trim p'" and "map_option trim n = map_option trim n'"
  shows "line_result p l n = line_result p' l n'"
proof (cases "trim l = []")
  case False
  then show ?thesis by (simp add: line_result_def)
next
  case True
  show ?thesis
  proof (cases p)
    case None
    with assms(1) have "p' = None" by simp
    with None show ?thesis by (simp add: line_result_def)
  next
    case (Some pl)
    with assms(1) obtain pl' where p': "p' = Some pl'" "trim pl' = trim pl" by (cases p') auto
    show ?thesis
    proof (cases n)
      case None
      with assms(2) have "n' = None" by simp
      with None Some p' show ?thesis by (simp add: line_result_def)
    next
      case (Some nl)
      with assms(2) obtain nl' where n': "n' = Some nl'" "trim nl' = trim nl" by (cases n') auto
      with Some \<open>p = Some pl\<close> p' show ?thesis by (simp add: line_result_def)
    qed
  qed
qed

lemma line_result_again:
  assumes "line_result p l n = Some r"
    and "map_option trim p' = map_option trim p" and "map_option trim n' = map_option trim n"
  shows "line_result p' r n' = Some r"
proof (cases "trim l = []")
  case True
  from line_result_blank [OF assms(1) True] have "r = l" by simp
  with assms(1) line_result_cong [OF assms(2,3), of l] show ?thesis by simp
next
  case False
  from line_result_trim [OF assms(1)] have t: "trim r = trim l" .
  from assms(1) False
  have r: "r = (if marked (trim l) then l else leading_ws l @ trim l)"
    by (simp add: line_result_nonblank)
  show ?thesis
  proof (cases "marked (trim l)")
    case True
    with r t False show ?thesis by (simp add: line_result_nonblank)
  next
    case nm: False
    with r have "r = leading_ws l @ trim l" by simp
    then have "leading_ws r @ trim r = r"
      using False by (simp add: leading_ws_indent trim_indent)
    with t False nm show ?thesis by (simp add: line_result_nonblank)
  qed
qed

section \<open>The formatting pass as a recursion over the lines\<close>

lemma map_filter_format_line:
  "k \<le> length lines \<Longrightarrow>
   List.map_filter (format_line lines) [k..<length lines]
     = fmt (if k = 0 then None else Some (lines ! (k - 1))) (drop k lines)"
proof (induction "length lines - k" arbitrary: k)
  case 0
  then show ?case by (simp add: List.map_filter_simps)
next
  case (Suc d)
  then have k: "k < length lines" by simp
  from Suc have d: "d = length lines - Suc k" "Suc k \<le> length lines" by simp_all
  have up: "[k..<length lines] = k # [Suc k..<length lines]"
    using k by (rule upt_conv_Cons)
  have dr: "drop k lines = lines ! k # drop (Suc k) lines"
    using k by (simp add: Cons_nth_drop_Suc)
  have nx: "(case drop (Suc k) lines of [] \<Rightarrow> None | n # _ \<Rightarrow> Some n)
      = (if k + 1 < length lines then Some (lines ! (k + 1)) else None)"
  proof (cases "Suc k < length lines")
    case True
    then have "drop (Suc k) lines = lines ! Suc k # drop (Suc (Suc k)) lines"
      by (simp add: Cons_nth_drop_Suc)
    with True show ?thesis by simp
  next
    case False
    then show ?thesis by simp
  qed
  have ih: "List.map_filter (format_line lines) [Suc k..<length lines]
      = fmt (Some (lines ! k)) (drop (Suc k) lines)"
    using Suc.hyps(1) [OF d] by simp
  show ?case
    by (simp only: up dr List.map_filter_simps fmt.simps nx format_line_result [symmetric] ih)
qed

lemma keep_line_mapped:
  assumes i: "i < length lines"
  defines "mapped \<equiv> map (format_line lines) [0..<length lines]"
  shows "keep_line mapped i \<longleftrightarrow> mapped ! i \<noteq> None"
proof (cases "mapped ! i")
  case None
  then show ?thesis by (simp add: keep_line_def)
next
  case (Some r)
  have nth: "\<And>j. j < length lines \<Longrightarrow> mapped ! j = format_line lines j"
    by (simp add: mapped_def)
  show ?thesis
  proof (cases "trim r = []")
    case False
    with Some show ?thesis by (simp add: keep_line_def)
  next
    case True
    from Some nth [OF i] have fr: "format_line lines i = Some r" by simp
    then have lr: "line_result (if i = 0 then None else Some (lines ! (i - 1))) (lines ! i)
        (if i + 1 < length lines then Some (lines ! (i + 1)) else None) = Some r"
      by (simp add: format_line_result)
    from line_result_trim [OF lr] True have bl: "trim (lines ! i) = []" by simp
    from line_result_blank [OF lr bl]
    have i0: "i \<noteq> 0" and i1: "i + 1 < length lines"
      and tp: "trim (lines ! (i - 1)) \<noteq> []" and tn: "trim (lines ! (i + 1)) \<noteq> []"
      and cp: "\<not> endsWith (trim (lines ! (i - 1))) (js ''{'')"
      and cn: "\<not> startsWith (trim (lines ! (i + 1))) (js ''}'')"
      by (auto split: if_splits)
    obtain rp where rp: "mapped ! (i - 1) = Some rp" "trim rp = trim (lines ! (i - 1))"
    proof -
      have "i - 1 < length lines" using i by simp
      from nth [OF this] tp show ?thesis
        using that by (simp add: format_line_result line_result_nonblank trim_indent)
    qed
    obtain rn where rn: "mapped ! (i + 1) = Some rn" "trim rn = trim (lines ! (i + 1))"
    proof -
      from nth [OF i1] tn show ?thesis
        using that by (simp add: format_line_result line_result_nonblank trim_indent)
    qed
    have len: "length mapped = length lines" by (simp add: mapped_def)
    from i0 obtain j where j: "i = Suc j" by (cases i) auto
    have "take i mapped = take j mapped @ [mapped ! j]"
      using i len j by (simp add: take_Suc_conv_app_nth)
    then have tk: "rev (take i mapped) = mapped ! (i - 1) # rev (take j mapped)"
      using j by simp
    have dr: "drop (Suc i) mapped = mapped ! Suc i # drop (Suc (Suc i)) mapped"
      using i1 len by (simp add: Cons_nth_drop_Suc)
    show ?thesis
      using Some True rp rn tp tn cp cn
      by (simp add: keep_line_def Let_def tk dr del: rev_rev_ident)
  qed
qed

lemma map_filter_cong_set:
  "(\<And>x. x \<in> set xs \<Longrightarrow> f x = g x) \<Longrightarrow> List.map_filter f xs = List.map_filter g xs"
proof (induction xs)
  case Nil
  show ?case by (simp add: List.map_filter_simps)
next
  case (Cons a xs)
  have "f a = g a" by (rule Cons.prems) simp
  moreover have "List.map_filter f xs = List.map_filter g xs"
    by (rule Cons.IH) (simp add: Cons.prems)
  ultimately show ?case by (simp add: List.map_filter_simps split: option.splits)
qed

lemma format_lines_fmt: "format_lines lines = fmt None lines"
proof -
  define mapped where "mapped = map (format_line lines) [0..<length lines]"
  have "List.map_filter (\<lambda>i. if keep_line mapped i then mapped ! i else None) [0..<length lines]
      = List.map_filter (format_line lines) [0..<length lines]"
  proof (rule map_filter_cong_set)
    fix i assume "i \<in> set [0..<length lines]"
    then have i: "i < length lines" by simp
    with keep_line_mapped [OF i]
    show "(if keep_line mapped i then mapped ! i else None) = format_line lines i"
      by (simp add: mapped_def)
  qed
  also have "\<dots> = fmt None lines"
    using map_filter_format_line [of 0 lines] by simp
  finally show ?thesis
    unfolding format_lines_def Let_def mapped_def by simp
qed

section \<open>Lines\<close>

lemma split_line: "10 \<notin> set l \<Longrightarrow> split l = [l]"
proof -
  assume "10 \<notin> set l"
  then have a: "\<forall>c \<in> set l. c \<noteq> 10" by auto
  then have t: "takeWhile (\<lambda>c. c \<noteq> 10) l = l" and d: "dropWhile (\<lambda>c. c \<noteq> 10) l = []"
    by simp_all
  show ?thesis by (subst split.simps) (simp only: t d list.case)
qed

lemma split_append: "10 \<notin> set l \<Longrightarrow> split (l @ 10 # s) = l # split s"
proof -
  assume "10 \<notin> set l"
  then have a: "\<And>c. c \<in> set l \<Longrightarrow> c \<noteq> 10" by auto
  have t: "takeWhile (\<lambda>c. c \<noteq> 10) (l @ 10 # s) = l"
    using a by (simp add: takeWhile_append2)
  have d: "dropWhile (\<lambda>c. c \<noteq> 10) (l @ 10 # s) = 10 # s"
    using a by (simp add: dropWhile_append2)
  show ?thesis by (subst split.simps) (simp only: t d list.case)
qed

lemma split_join:
  "ls \<noteq> [] \<Longrightarrow> (\<forall>l \<in> set ls. 10 \<notin> set l) \<Longrightarrow> split (join ls) = ls"
proof (induction ls rule: join.induct)
  case 1
  then show ?case by simp
next
  case (2 l)
  then show ?case by (simp add: split_line)
next
  case (3 l m ls)
  then show ?case by (simp add: split_append)
qed

lemma split_no_newline: "l \<in> set (split s) \<Longrightarrow> 10 \<notin> set l"
proof (induction s arbitrary: l rule: split.induct)
  case (1 s)
  from "1.prems" have "l = takeWhile (\<lambda>c. c \<noteq> 10) s
      \<or> (\<exists>nl rest. dropWhile (\<lambda>c. c \<noteq> 10) s = nl # rest \<and> l \<in> set (split rest))"
    by (subst (asm) split.simps) (auto split: list.splits dest: sym)
  then show ?case
  proof
    assume "l = takeWhile (\<lambda>c. c \<noteq> 10) s"
    then show ?thesis by (auto dest: set_takeWhileD)
  next
    assume "\<exists>nl rest. dropWhile (\<lambda>c. c \<noteq> 10) s = nl # rest \<and> l \<in> set (split rest)"
    then obtain nl rest where "dropWhile (\<lambda>c. c \<noteq> 10) s = nl # rest" "l \<in> set (split rest)"
      by blast
    then show ?thesis by (rule "1.IH")
  qed
qed

lemma set_trim: "set (trim l) \<subseteq> set l"
proof -
  have "set (trim l) \<subseteq> set (dropWhile is_ws l)"
    unfolding trim_def trimEnd_def trimStart_def
    using set_dropWhileD [of _ is_ws "rev (dropWhile is_ws l)"] by auto
  also have "\<dots> \<subseteq> set l" using set_dropWhileD [of _ is_ws l] by auto
  finally show ?thesis .
qed

lemma set_leading_ws: "set (leading_ws l) \<subseteq> set l"
  unfolding leading_ws_def using set_takeWhileD [of _ is_ws l] by auto

lemma set_line_result: "line_result p l n = Some r \<Longrightarrow> set r \<subseteq> set l"
  using set_trim [of l] set_leading_ws [of l]
  by (auto simp: line_result_def split: if_splits option.splits)

lemma fmt_origin:
  "r \<in> set (fmt p ls) \<Longrightarrow> \<exists>l \<in> set ls. \<exists>p' n'. line_result p' l n' = Some r"
proof (induction ls arbitrary: p)
  case Nil
  then show ?case by simp
next
  case (Cons l ls)
  then show ?case by (fastforce split: option.splits)
qed

lemma fmt_no_newline:
  assumes "\<forall>l \<in> set ls. 10 \<notin> set l" and "r \<in> set (fmt p ls)"
  shows "10 \<notin> set r"
proof -
  from fmt_origin [OF assms(2)] obtain l p' n'
    where "l \<in> set ls" "line_result p' l n' = Some r" by blast
  with assms(1) set_line_result [of p' l n' r] show ?thesis by auto
qed

lemma split_format: "fmt None (split c) \<noteq> [] \<Longrightarrow> split (format c) = fmt None (split c)"
  unfolding format_def format_lines_fmt
  by (rule split_join) (auto dest: fmt_no_newline [rotated] split_no_newline)

section \<open>The formatting pass and trailing white space\<close>

lemma formatted_line:
  assumes "l \<in> set (split (format c))" and "trim l \<noteq> []" and "\<not> marked (trim l)"
  shows "l = leading_ws l @ trim l
     \<and> (\<exists>line \<in> set (split c). leading_ws line = leading_ws l \<and> trim line = trim l)"
proof -
  have ne: "fmt None (split c) \<noteq> []"
  proof
    assume "fmt None (split c) = []"
    then have "format c = []" by (simp add: format_def format_lines_fmt)
    with assms(1) have "l = []" by simp
    with assms(2) show False by (simp add: trim_def trimEnd_def trimStart_def)
  qed
  from split_format [OF ne] assms(1) have "l \<in> set (fmt None (split c))" by simp
  from fmt_origin [OF this] obtain line p n
    where line: "line \<in> set (split c)" and lr: "line_result p line n = Some l" by blast
  from line_result_trim [OF lr] have t: "trim l = trim line" .
  with assms(2,3) lr have l: "l = leading_ws line @ trim line"
    by (simp add: line_result_nonblank)
  with t assms(2) have "leading_ws l = leading_ws line" by (simp add: leading_ws_indent)
  with l t line show ?thesis by auto
qed

section \<open>Texts the formatting pass leaves alone\<close>

lemma no_trailing_ws:
  assumes "l \<noteq> []" and "\<not> is_ws (last l)"
  shows "trim l \<noteq> []" and "leading_ws l @ trim l = l"
proof -
  define u where "u = dropWhile is_ws l"
  have lu: "l = takeWhile is_ws l @ u" by (simp add: u_def)
  have une: "u \<noteq> []"
  proof
    assume "u = []"
    then have "\<forall>c \<in> set l. is_ws c" by (simp add: u_def dropWhile_eq_Nil_conv)
    with assms show False by (meson last_in_set)
  qed
  with lu have "last l = last u" by (metis last_appendR)
  with assms(2) une have "dropWhile is_ws (rev u) = rev u"
    by (cases "rev u") (auto simp: hd_rev)
  then have t: "trim l = u" by (simp add: trim_def trimEnd_def trimStart_def u_def)
  with une show "trim l \<noteq> []" by simp
  from t lu show "leading_ws l @ trim l = l" by (simp add: leading_ws_def)
qed

lemma fmt_fixed:
  "(\<forall>l \<in> set ls. l \<noteq> [] \<and> \<not> is_ws (last l)) \<Longrightarrow> fmt p ls = ls"
proof (induction ls arbitrary: p)
  case Nil
  show ?case by simp
next
  case (Cons l ls)
  then have l: "l \<noteq> []" "\<not> is_ws (last l)" by simp_all
  from no_trailing_ws [OF l]
  have "line_result p l (case ls of [] \<Rightarrow> None | n # _ \<Rightarrow> Some n) = Some l"
    by (simp add: line_result_nonblank)
  with Cons show ?case by simp
qed

lemma format_fixed:
  assumes "\<forall>l \<in> set (split c). l \<noteq> [] \<and> \<not> is_ws (last l)"
  shows "format c = c"
  using fmt_fixed [OF assms, of None] by (simp add: format_def format_lines_fmt join_split)

section \<open>The formatting pass reaches a fixed point\<close>

lemma fmt_idem:
  "(\<forall>pl. p = Some pl \<and> trim pl \<noteq> [] \<longrightarrow> map_option trim q = map_option trim p) \<Longrightarrow>
   fmt q (fmt p ls) = fmt p ls"
proof (induction ls arbitrary: p q)
  case Nil
  show ?case by simp
next
  case (Cons l ls)
  define n where "n = (case ls of [] \<Rightarrow> None | x # _ \<Rightarrow> Some x)"
  show ?case
  proof (cases "line_result p l n")
    case None
    have "trim l = []"
    proof (rule ccontr)
      assume "trim l \<noteq> []"
      from line_result_nonblank [OF this, of p n] None show False by simp
    qed
    then have "fmt q (fmt (Some l) ls) = fmt (Some l) ls"
      by (intro Cons.IH) simp
    with None show ?thesis by (simp add: n_def)
  next
    case (Some r)
    define out where "out = fmt (Some l) ls"
    define n' where "n' = (case out of [] \<Rightarrow> None | x # _ \<Rightarrow> Some x)"
    from Some have first: "fmt p (l # ls) = r # out" by (simp add: n_def out_def)
    have tr: "trim r = trim l" using Some by (rule line_result_trim)
    have again: "line_result q r n' = Some r"
    proof (cases "trim l = []")
      case False
      with Some have r: "r = (if marked (trim l) then l else leading_ws l @ trim l)"
        by (simp add: line_result_nonblank)
      from False tr have "line_result q r n'
          = Some (if marked (trim l) then r else leading_ws r @ trim l)"
        by (simp add: line_result_nonblank)
      also have "\<dots> = Some r"
        using r False by (simp add: leading_ws_indent)
      finally show ?thesis .
    next
      case True
      from line_result_blank [OF Some True] obtain pl nl
        where p: "p = Some pl" "trim pl \<noteq> []" and nn: "n = Some nl" "trim nl \<noteq> []"
        by blast
      from p Cons.prems have q: "map_option trim q = map_option trim p" by simp
      from nn obtain ls' where ls: "ls = nl # ls'"
        by (cases ls) (auto simp: n_def)
      obtain rn where rn: "out = rn # fmt (Some nl) ls'" "trim rn = trim nl"
        using nn(2) by (simp add: out_def ls line_result_nonblank trim_indent)
      then have "map_option trim n' = map_option trim n"
        by (simp add: n'_def nn)
      with q show ?thesis by (intro line_result_again [OF Some])
    qed
    have "fmt (Some r) out = out"
      unfolding out_def by (rule Cons.IH) (simp add: tr)
    with again have "fmt q (r # out) = r # out" by (simp add: n'_def)
    with first show ?thesis by simp
  qed
qed

lemma format_idem: "format (format c) = format c"
proof (cases "fmt None (split c) = []")
  case True
  then have "format c = []" by (simp add: format_def format_lines_fmt)
  moreover have "format [] = []"
    by (simp add: format_def format_lines_fmt line_result_def trim_def trimEnd_def trimStart_def)
  ultimately show ?thesis by simp
next
  case False
  have "format (format c) = join (fmt None (split (format c)))"
    by (simp add: format_def format_lines_fmt)
  also have "\<dots> = join (fmt None (fmt None (split c)))"
    using split_format [OF False] by simp
  also have "fmt None (fmt None (split c)) = fmt None (split c)"
    by (rule fmt_idem) simp
  finally show ?thesis by (simp add: format_def format_lines_fmt)
qed

lemma process_file_format:
  "process_file ps content
     = (fst (before_format ps content), format (snd (before_format ps content)))"
  by (simp add: process_file_def split: prod.splits)

lemma before_format_plain:
  assumes "quotes x \<le> 1"
  shows "before_format ps x = (ps, restore ps (strip_comments x))"
  using replace_strings_no_literal [OF assms, of "(ps, 0)"] by (simp add: before_format_def)

lemma quotes_none: "34 \<notin> set x \<Longrightarrow> 39 \<notin> set x \<Longrightarrow> quotes x = 0"
  by (auto simp: quotes_def filter_empty_conv)

lemma process_file_plain:
  assumes "34 \<notin> set x" and "39 \<notin> set x"
    and "\<not> js_includes x (js ''//'')" and "\<not> js_includes x (js ''/*'')"
    and "\<not> js_includes x (js ''PRESERVED_STRING_'')"
  shows "process_file ps x = (ps, format x)"
proof -
  from assms(1,2) have "quotes x \<le> 1" by (simp add: quotes_none)
  then have "before_format ps x = (ps, restore ps (strip_comments x))"
    by (rule before_format_plain)
  also have "strip_comments x = x" using assms(3,4) by (rule strip_comments_none)
  also have "restore ps x = x" using assms(5) by (rule restore_no_placeholder)
  finally show ?thesis by (simp add: process_file_format)
qed

text \<open>
  An output without quotes, without \<^verbatim>\<open>//\<close>, without \<^verbatim>\<open>/*\<close> and without placeholder text is
  a fixed point of the transformation.
\<close>

lemma idempotent_on_plain_output:
  assumes "y = snd (process_file ps x)"
    and "34 \<notin> set y" and "39 \<notin> set y"
    and "\<not> js_includes y (js ''//'')" and "\<not> js_includes y (js ''/*'')"
    and "\<not> js_includes y (js ''PRESERVED_STRING_'')"
  shows "snd (process_file ps' y) = y"
proof -
  have "snd (process_file ps' y) = format y"
    using process_file_plain [OF assms(2-6)] by simp
  also have "\<dots> = y"
    unfolding assms(1) process_file_format by (simp add: format_idem)
  finally show ?thesis .
qed

section \<open>The two line-comment passes on one line\<close>

lemma startsWith_line:
  assumes "10 \<notin> set p" and "rest = [] \<or> hd rest = 10"
  shows "startsWith (l @ rest) p \<longleftrightarrow> startsWith l p"
  using assms
proof (induction l p rule: startsWith.induct)
  case (1 s)
  show ?case by simp
next
  case (2 p ps)
  then show ?case by (cases rest) auto
next
  case (3 c s p ps)
  then show ?case by simp
qed

lemma takeWhile_line:
  assumes "10 \<notin> set l" and "rest = [] \<or> hd rest = 10"
  shows "takeWhile (\<lambda>c. c \<noteq> 10) (l @ rest) = l"
proof -
  from assms(1) have a: "\<And>c. c \<in> set l \<Longrightarrow> c \<noteq> 10" by auto
  from assms(2) have "takeWhile (\<lambda>c. c \<noteq> 10) rest = []" by (cases rest) auto
  with a show ?thesis by (simp add: takeWhile_append2)
qed

lemma doc_prev: "replace_g doc_comment f p s = replace_g doc_comment f p' s"
proof (cases s)
  case Nil
  then show ?thesis by simp
next
  case (Cons c t)
  have "doc_comment p (c # t) = doc_comment p' (c # t)" by (simp add: doc_comment_def)
  with Cons show ?thesis by (simp split: option.splits nat.splits)
qed

lemma line_prev_newline:
  assumes "rest = [] \<or> hd rest = 10"
  shows "replace_g line_comment f p rest = replace_g line_comment f None rest"
proof (cases rest)
  case Nil
  then show ?thesis by simp
next
  case (Cons c t)
  with assms have "c = 10" by simp
  with Cons show ?thesis by (simp add: line_comment_def js_def)
qed

lemma doc_on_line:
  assumes "10 \<notin> set l" and "rest = [] \<or> hd rest = 10"
  shows "replace_g doc_comment (\<lambda>_. []) p (l @ rest) = before (js ''///'') l @ strip_doc rest"
  using assms(1)
proof (induction l arbitrary: p)
  case Nil
  show ?case using doc_prev [of _ p rest None] by (simp add: strip_doc_def)
next
  case (Cons c l)
  have sw: "startsWith ((c # l) @ rest) (js ''///'') \<longleftrightarrow> startsWith (c # l) (js ''///'')"
    by (rule startsWith_line) (simp_all add: js_def assms(2))
  show ?case
  proof (cases "startsWith (c # l) (js ''///'')")
    case True
    then obtain l' where l: "c # l = js ''///'' @ l'"
      by (cases l; cases "tl l") (auto simp: js_def)
    with Cons.prems have nl: "10 \<notin> set l'" by (auto simp: js_def)
    have tw: "takeWhile (\<lambda>c. c \<noteq> 10) (l' @ rest) = l'"
      using nl assms(2) by (rule takeWhile_line)
    have len: "doc_comment p ((c # l) @ rest) = Some (Suc (Suc (Suc (length l'))))"
      using sw True l tw by (simp add: doc_comment_def js_def)
    have "l = tl (js ''///'') @ l'" using l by (simp add: js_def)
    then have dr: "drop (Suc (Suc (length l'))) (l @ rest) = rest"
      by (simp add: js_def)
    show ?thesis
      using True len dr doc_prev [of "\<lambda>_. []" _ rest None]
      by (simp add: strip_doc_def)
  next
    case False
    with sw have "doc_comment p ((c # l) @ rest) = None" by (simp add: doc_comment_def)
    with False Cons show ?thesis by simp
  qed
qed

lemma skip_no_match:
  "(\<And>v p. suffix v pre \<Longrightarrow> v \<noteq> [] \<Longrightarrow> m p (v @ t) = None) \<Longrightarrow>
   replace_g m f prev (pre @ t)
     = pre @ replace_g m f (if pre = [] then prev else Some (last pre)) t"
proof (induction pre arbitrary: prev)
  case Nil
  show ?case by simp
next
  case (Cons c pre)
  have "m prev ((c # pre) @ t) = None" by (rule Cons.prems) simp_all
  moreover have "replace_g m f (Some c) (pre @ t)
      = pre @ replace_g m f (if pre = [] then Some c else Some (last pre)) t"
    by (rule Cons.IH) (simp add: Cons.prems suffix_Cons)
  ultimately show ?case by simp
qed

lemma slashes_start:
  assumes "startsWith (v @ t) (js ''//'')" and "v \<noteq> []"
  shows "startsWith v (js ''//'') \<or> (v = [47] \<and> startsWith t (js ''/''))"
  using assms by (cases v; cases "tl v") (auto simp: js_def)

lemma no_slashes_in:
  assumes "\<not> js_includes (pre @ [47]) (js ''//'')" and "suffix v pre" and "v \<noteq> []"
  shows "\<not> startsWith (v @ t) (js ''//'')"
proof
  assume "startsWith (v @ t) (js ''//'')"
  from slashes_start [OF this assms(3)]
  have "startsWith (v @ [47]) (js ''//'')"
    by (cases v; cases "tl v") (auto simp: js_def)
  moreover from assms(2) have "suffix (v @ [47]) (pre @ [47])" by simp
  ultimately show False using assms(1) not_includes_suffix by blast
qed

lemma no_slashes_line:
  assumes "\<not> js_includes c (js ''//'')" and "\<not> startsWith t (js ''/'')"
    and "suffix v c" and "v \<noteq> []"
  shows "\<not> startsWith (v @ t) (js ''//'')"
proof
  assume "startsWith (v @ t) (js ''//'')"
  from slashes_start [OF this assms(4)] assms(2) have "startsWith v (js ''//'')" by simp
  with assms(1,3) not_includes_suffix show False by blast
qed

lemma doc_skip:
  assumes "\<And>v. suffix v pre \<Longrightarrow> v \<noteq> [] \<Longrightarrow> \<not> startsWith (v @ t) (js ''//'')"
  shows "replace_g doc_comment f prev (pre @ t) = pre @ replace_g doc_comment f None t"
proof -
  have "replace_g doc_comment f prev (pre @ t)
      = pre @ replace_g doc_comment f (if pre = [] then prev else Some (last pre)) t"
  proof (rule skip_no_match)
    fix v p assume "suffix v pre" "v \<noteq> []"
    then have "\<not> startsWith (v @ t) (js ''//'')" by (rule assms)
    then have "\<not> startsWith (v @ t) (js ''///'')"
      using startsWith_append [of "v @ t" "js ''//''" "js ''/''"] by (auto simp: js_def)
    then show "doc_comment p (v @ t) = None" by (simp add: doc_comment_def)
  qed
  then show ?thesis using doc_prev [of f _ t None] by simp
qed

lemma line_skip:
  assumes "\<And>v. suffix v pre \<Longrightarrow> v \<noteq> [] \<Longrightarrow> \<not> startsWith (v @ t) (js ''//'')"
  shows "replace_g line_comment f prev (pre @ t)
     = pre @ replace_g line_comment f (if pre = [] then prev else Some (last pre)) t"
proof (rule skip_no_match)
  fix v p assume "suffix v pre" "v \<noteq> []"
  then have "\<not> startsWith (v @ t) (js ''//'')" by (rule assms)
  then show "line_comment p (v @ t) = None" by (simp add: line_comment_def)
qed

lemma strip_doc_newline: "rest = [] \<or> hd rest = 10 \<Longrightarrow> strip_doc rest = [] \<or> hd (strip_doc rest) = 10"
  by (cases rest) (auto simp: strip_doc_def doc_comment_def js_def)



lemma before_unchanged: "\<not> js_includes s (js ''//'') \<Longrightarrow> before (js ''///'') s = s"
proof (induction s)
  case Nil
  show ?case by simp
next
  case (Cons a s)
  then have "\<not> startsWith (a # s) (js ''//'')" "\<not> js_includes s (js ''//'')"
    by (simp_all add: not_includes_Cons)
  moreover then have "\<not> startsWith (a # s) (js ''///'')"
    using startsWith_append [of "a # s" "js ''//''" "js ''/''"] by (auto simp: js_def)
  ultimately show ?case using Cons.IH by simp
qed



lemma doc_pass_comment:
  assumes "\<not> js_includes (pre @ [47]) (js ''//'')" and "10 \<notin> set l"
    and "rest = [] \<or> hd rest = 10"
  shows "strip_doc (pre @ l @ rest) = pre @ before (js ''///'') l @ strip_doc rest"
proof -
  have "replace_g doc_comment (\<lambda>_. []) None (pre @ l @ rest)
      = pre @ replace_g doc_comment (\<lambda>_. []) None (l @ rest)"
    by (rule doc_skip) (rule no_slashes_in [OF assms(1)])
  also have "replace_g doc_comment (\<lambda>_. []) None (l @ rest)
      = before (js ''///'') l @ strip_doc rest"
    using assms(2,3) by (rule doc_on_line)
  finally show ?thesis by (simp add: strip_doc_def)
qed



lemma guarded_slashes_kept:
  assumes "\<not> js_includes (pre @ [47]) (js ''//'')" and "10 \<notin> set c"
    and "rest = [] \<or> hd rest = 10" and "pre \<noteq> []" and "last pre = 58"
    and "\<not> js_includes (47 # c) (js ''//'')"
  shows "strip_line (strip_doc (pre @ js ''//'' @ c @ rest))
     = pre @ js ''//'' @ c @ strip_line (strip_doc rest)"
proof -
  define x where "x = strip_doc rest"
  have x: "x = [] \<or> hd x = 10" unfolding x_def using assms(3) by (rule strip_doc_newline)
  then have xs: "\<not> startsWith x (js ''/'')" by (cases x) (auto simp: js_def)
  have "10 \<notin> set (js ''//'' @ c)" using assms(2) by (simp add: js_def)
  from doc_pass_comment [OF assms(1) this assms(3)]
  have d: "strip_doc (pre @ js ''//'' @ c @ rest) = pre @ before (js ''///'') (js ''//'' @ c) @ x"
    by (simp add: x_def)
  have "\<not> startsWith (47 # 47 # c) (js ''///'')"
    using assms(6) by (cases c) (auto simp: js_def not_includes_Cons)
  then have b: "before (js ''///'') (js ''//'' @ c) = js ''//'' @ c"
    using before_unchanged [OF assms(6)] by (simp add: js_def)
  have "strip_line (pre @ js ''//'' @ c @ x)
      = pre @ replace_g line_comment (\<lambda>_. []) (Some 58) (js ''//'' @ c @ x)"
    unfolding strip_line_def
    using line_skip [of pre "js ''//'' @ c @ x" "\<lambda>_. []" None] no_slashes_in [OF assms(1)]
      assms(4,5) by simp
  also have "replace_g line_comment (\<lambda>_. []) (Some 58) (js ''//'' @ c @ x)
      = 47 # replace_g line_comment (\<lambda>_. []) (Some 47) ((47 # c) @ x)"
    by (simp add: line_comment_def js_def)
  also have "replace_g line_comment (\<lambda>_. []) (Some 47) ((47 # c) @ x)
      = (47 # c) @ replace_g line_comment (\<lambda>_. []) (Some (last (47 # c))) x"
    using line_skip [of "47 # c" x "\<lambda>_. []" "Some 47"] no_slashes_line [OF assms(6) xs]
    by simp
  also have "replace_g line_comment (\<lambda>_. []) (Some (last (47 # c))) x = strip_line x"
    unfolding strip_line_def using x by (rule line_prev_newline)
  finally show ?thesis using d b by (simp add: x_def js_def)
qed





section \<open>The two line-comment passes work line by line\<close>











section \<open>A literal on one line between plain text\<close>

lemma quoted_body_Cons:
  "quoted_body q (c # s) =
     (if c = q then Some 1
      else if c = 92
        then (case s of [] \<Rightarrow> None
              | d # s' \<Rightarrow> if is_line_terminator d then None
                          else map_option (\<lambda>n. n + 2) (quoted_body q s'))
      else map_option Suc (quoted_body q s))"
  by (cases s) simp_all

lemma quoted_body_plain:
  "q \<notin> set body \<Longrightarrow> 92 \<notin> set body \<Longrightarrow>
   quoted_body q (body @ q # post) = Some (Suc (length body))"
  by (induction body) (simp_all add: quoted_body_Cons)

lemma single_quoted_literal:
  assumes "q \<notin> set body" and "92 \<notin> set body"
  shows "single_quoted q' (q # body @ q # post)
     = (if q' = q then Some (Suc (Suc (length body))) else None)"
  using quoted_body_plain [OF assms, of post] by (simp add: single_quoted_def)

lemma triple_quoted_literal:
  assumes "q \<notin> set body" and "q \<notin> set post"
  shows "triple_quoted q' (q # body @ q # post) = None"
proof (cases body)
  case Nil
  with assms(2) show ?thesis by (cases post) (auto simp: triple_quoted_def)
next
  case (Cons b body')
  with assms(1) show ?thesis by (auto simp: triple_quoted_def)
qed

lemma optional_r_Cons:
  "optional_r body (a # s) =
     (if a = 114
      then (case body s of Some n \<Rightarrow> Some (Suc n) | None \<Rightarrow> body (a # s))
      else body (a # s))"
  by (simp add: optional_r_def split: option.splits)

lemma string_literal_literal:
  assumes "q = 34 \<or> q = 39" and "q \<notin> set body" and "92 \<notin> set body" and "q \<notin> set post"
  shows "string_literal (q # body @ q # post) = Some (Suc (Suc (length body)))"
  using assms(1)
  by (auto simp: string_literal_def optional_r_Cons triple_quoted_literal [OF assms(2,4)]
      single_quoted_literal [OF assms(2,3)])

lemma triple_quoted_other: "a \<noteq> q' \<Longrightarrow> triple_quoted q' (a # s) = None"
  by (simp add: triple_quoted_def)

lemma single_quoted_other: "a \<noteq> q' \<Longrightarrow> single_quoted q' (a # s) = None"
  by (simp add: single_quoted_def)

lemma string_literal_before:
  assumes "q = 34 \<or> q = 39" and "q \<notin> set body" and "92 \<notin> set body" and "q \<notin> set post"
    and "a \<noteq> 34" and "a \<noteq> 39" and "34 \<notin> set v" and "39 \<notin> set v"
  shows "string_literal (a # v @ q # body @ q # post)
     = (if a = 114 \<and> v = [] then Some (Suc (Suc (Suc (length body)))) else None)"
proof (cases v)
  case Nil
  with assms(1,5,6) show ?thesis
    by (auto simp: string_literal_def optional_r_Cons triple_quoted_other single_quoted_other
        triple_quoted_literal [OF assms(2,4)] single_quoted_literal [OF assms(2,3)])
next
  case (Cons b v')
  with assms(7,8) have "b \<noteq> 34" "b \<noteq> 39" by auto
  with Cons assms(5,6) show ?thesis
    by (simp add: string_literal_def optional_r_Cons triple_quoted_other single_quoted_other)
qed

lemma includes_Cons_other:
  "p \<noteq> [] \<Longrightarrow> a \<noteq> hd p \<Longrightarrow> js_includes (a # s) p = js_includes s p"
  by (cases p) (auto simp: js_includes_def)

lemma on_string_stored:
  assumes "\<not> js_includes m (js ''${'')"
  shows "on_string (ps, 0) m = ((array_set ps 0 m, 1), js ''PRESERVED_STRING_0'')"
  using assms by (simp add: on_string_def js_def)

lemma strings_pass_literal:
  assumes q: "q = 34 \<or> q = 39"
    and body: "q \<notin> set body" "92 \<notin> set body"
    and hole: "\<not> js_includes (q # body @ [q]) (js ''${'')"
    and pre: "34 \<notin> set pre" "39 \<notin> set pre"
    and post: "34 \<notin> set post" "39 \<notin> set post"
  shows "\<exists>pre' m. pre' @ m = pre @ q # body @ [q] \<and> set pre' \<subseteq> set pre
     \<and> replace_strings (ps, 0) (pre @ q # body @ q # post)
         = ((array_set ps 0 m, 1), pre' @ js ''PRESERVED_STRING_0'' @ post)"
  using pre
proof (induction pre)
  case Nil
  from q post have qp: "q \<notin> set post" by auto
  from post have "quotes post \<le> 1" by (simp add: quotes_none)
  then have p: "\<And>st. replace_strings st post = (st, post)"
    by (rule replace_strings_no_literal)
  have "replace_strings (ps, 0) (q # body @ q # post)
      = ((array_set ps 0 (q # body @ [q]), 1), js ''PRESERVED_STRING_0'' @ post)"
    using string_literal_literal [OF q body qp] on_string_stored [OF hole, of ps] p
    by simp
  then show ?case by auto
next
  case (Cons a pre)
  from q post have qp: "q \<notin> set post" by auto
  from Cons.prems have a: "a \<noteq> 34" "a \<noteq> 39" and pre': "34 \<notin> set pre" "39 \<notin> set pre"
    by auto
  note lit = string_literal_before [OF q body qp a pre']
  show ?case
  proof (cases "a = 114 \<and> pre = []")
    case True
    from post have "quotes post \<le> 1" by (simp add: quotes_none)
    then have p: "\<And>st. replace_strings st post = (st, post)"
      by (rule replace_strings_no_literal)
    have h: "\<not> js_includes (114 # q # body @ [q]) (js ''${'')"
      using hole by (simp add: includes_Cons_other js_def)
    have "replace_strings (ps, 0) (114 # q # body @ q # post)
        = ((array_set ps 0 (114 # q # body @ [q]), 1), js ''PRESERVED_STRING_0'' @ post)"
      using lit True on_string_stored [OF h, of ps] p by simp
    with True show ?thesis by auto
  next
    case False
    with lit have n: "string_literal (a # pre @ q # body @ q # post) = None" by simp
    from Cons.IH [OF pre'] obtain pre'' m
      where "pre'' @ m = pre @ q # body @ [q]" "set pre'' \<subseteq> set pre"
        "replace_strings (ps, 0) (pre @ q # body @ q # post)
           = ((array_set ps 0 m, 1), pre'' @ js ''PRESERVED_STRING_0'' @ post)"
      by blast
    with n have "(a # pre'') @ m = (a # pre) @ q # body @ [q] \<and> set (a # pre'') \<subseteq> set (a # pre)
        \<and> replace_strings (ps, 0) ((a # pre) @ q # body @ q # post)
            = ((array_set ps 0 m, 1), (a # pre'') @ js ''PRESERVED_STRING_0'' @ post)"
      by auto
    then show ?thesis by blast
  qed
qed

lemma no_char_includes: "p \<noteq> [] \<Longrightarrow> hd p \<notin> set s \<Longrightarrow> \<not> js_includes s p"
proof (induction s)
  case Nil
  then show ?case by (simp add: js_includes_def)
next
  case (Cons c s)
  then have "\<not> startsWith (c # s) p" by (cases p) auto
  with Cons show ?case by (simp add: not_includes_Cons)
qed

lemma startsWith_nth: "startsWith s p \<Longrightarrow> i < length p \<Longrightarrow> s ! i = p ! i"
proof (induction s p arbitrary: i rule: startsWith.induct)
  case (3 c s p ps)
  then show ?case by (cases i) auto
qed simp_all

lemma placeholder_before:
  assumes "v \<noteq> []" and "95 \<notin> set v"
  shows "\<not> startsWith (v @ js ''PRESERVED_STRING_0'' @ post) (js ''PRESERVED_STRING_'')"
proof
  assume "startsWith (v @ js ''PRESERVED_STRING_0'' @ post) (js ''PRESERVED_STRING_'')"
  from startsWith_nth [OF this, of 9]
  have n: "(v @ js ''PRESERVED_STRING_0'' @ post) ! 9 = 95" by (simp add: js_def)
  show False
  proof (cases "9 < length v")
    case True
    with n have "v ! 9 = 95" by (simp add: nth_append)
    with True assms(2) show False by (metis nth_mem)
  next
    case False
    define k where "k = 9 - length v"
    from False assms(1) have k: "k < 9" by (cases v) (auto simp: k_def)
    from False n have "(js ''PRESERVED_STRING_0'' @ post) ! k = 95"
      by (simp add: nth_append k_def)
    moreover from k have "k \<in> {0, 1, 2, 3, 4, 5, 6, 7, 8}" by auto
    ultimately show False by (auto simp: js_def)
  qed
qed

lemma placeholder_needs_underscore:
  assumes "95 \<notin> set t"
  shows "\<not> startsWith t (js ''PRESERVED_STRING_'')"
proof
  assume sw: "startsWith t (js ''PRESERVED_STRING_'')"
  from startsWith_nth [OF sw, of 9] have "t ! 9 = 95" by (simp add: js_def)
  moreover from startsWith_length [OF sw] have "9 < length t" by (simp add: js_def)
  ultimately show False using assms by (metis nth_mem)
qed

lemma array_get_set: "array_get (array_set ps 0 m) [48] = Some m"
  by (cases ps) (simp_all add: array_get_def array_set_def to_number_def)

lemma restore_literal:
  assumes "95 \<notin> set pre" and "95 \<notin> set post" and "post = [] \<or> \<not> is_digit (hd post)"
  shows "restore (array_set ps 0 m) (pre @ js ''PRESERVED_STRING_0'' @ post) = pre @ m @ post"
proof -
  let ?f = "\<lambda>t. to_string (array_get (array_set ps 0 m) (drop 17 t))"
  have skip: "replace_g placeholder ?f None (pre @ js ''PRESERVED_STRING_0'' @ post)
      = pre @ replace_g placeholder ?f (if pre = [] then None else Some (last pre))
                (js ''PRESERVED_STRING_0'' @ post)"
  proof (rule skip_no_match)
    fix v p assume "suffix v pre" "v \<noteq> []"
    with assms(1) have "95 \<notin> set v" by (auto simp: suffix_def)
    from placeholder_before [OF \<open>v \<noteq> []\<close> this]
    show "placeholder p (v @ js ''PRESERVED_STRING_0'' @ post) = None"
      by (simp add: placeholder_def)
  qed
  have dg: "takeWhile is_digit post = []" using assms(3) by (cases post) auto
  have rest: "\<And>p f. replace_g placeholder f p post = post"
  proof (rule replace_g_no_match)
    fix t p assume "suffix t post"
    with assms(2) have "95 \<notin> set t" by (auto simp: suffix_def)
    from placeholder_needs_underscore [OF this]
    show "placeholder p t = None" by (simp add: placeholder_def)
  qed
  have at: "\<And>p. replace_g placeholder ?f p (js ''PRESERVED_STRING_0'' @ post) = m @ post"
    by (simp add: js_def placeholder_def dg is_digit_def array_get_set to_string_def rest)
  from skip at show ?thesis by (simp add: restore_def)
qed

section \<open>The formatting pass keeps what stands inside a line\<close>

lemma hd_split: "hd (split s) = takeWhile (\<lambda>c. c \<noteq> 10) s"
  by (subst split.simps) simp

lemma split_sublist:
  assumes "10 \<notin> set m"
  shows "\<exists>l \<in> set (split (u @ m @ v)). sublist m l"
proof (induction u)
  case Nil
  from assms have a: "\<And>c. c \<in> set m \<Longrightarrow> c \<noteq> 10" by auto
  have "hd (split (m @ v)) = m @ takeWhile (\<lambda>c. c \<noteq> 10) v"
    using a by (simp add: hd_split takeWhile_append2)
  moreover have "hd (split (m @ v)) \<in> set (split (m @ v))"
    using split_nonempty [of "m @ v"] by simp
  ultimately show ?case by (metis append_Nil sublist_append_rightI)
next
  case (Cons a u)
  then obtain l where l: "l \<in> set (split (u @ m @ v))" "sublist m l" by blast
  obtain h t where sp: "split (u @ m @ v) = h # t"
    using split_nonempty [of "u @ m @ v"] by (cases "split (u @ m @ v)") auto
  show ?case
  proof (cases "a = 10")
    case True
    with l show ?thesis by (auto simp: split_Cons)
  next
    case False
    show ?thesis
    proof (cases "l = h")
      case True
      with l(2) have "sublist m (a # h)" by (simp add: sublist_Cons_right)
      with False sp show ?thesis by (auto simp: split_Cons)
    next
      case ne: False
      with l(1) sp have "l \<in> set t" by simp
      with False sp l(2) show ?thesis by (auto simp: split_Cons)
    qed
  qed
qed

lemma dropWhile_keeps:
  assumes "m \<noteq> []" and "\<not> P (hd m)"
  shows "\<exists>x'. dropWhile P (x @ m @ y) = x' @ m @ y"
proof (cases "\<forall>c \<in> set x. P c")
  case True
  then have "dropWhile P (x @ m @ y) = dropWhile P (m @ y)" by (simp add: dropWhile_append2)
  also have "\<dots> = m @ y" using assms by (cases m) auto
  finally show ?thesis by (metis append_Nil)
next
  case False
  then obtain c where "c \<in> set x" "\<not> P c" by blast
  then have "dropWhile P (x @ m @ y) = dropWhile P x @ m @ y" by (rule dropWhile_append1)
  then show ?thesis by blast
qed

lemma trim_sublist:
  assumes "sublist m l" and "m \<noteq> []" and "\<not> is_ws (hd m)" and "\<not> is_ws (last m)"
  shows "sublist m (trim l)"
proof -
  from assms(1) obtain x y where l: "l = x @ m @ y" by (auto simp: sublist_def)
  from dropWhile_keeps [of m is_ws x y] assms(2,3) obtain x'
    where s: "trimStart l = x' @ m @ y" by (auto simp: trimStart_def l)
  have "rev m \<noteq> []" "\<not> is_ws (hd (rev m))" using assms(2,4) by (simp_all add: hd_rev)
  from dropWhile_keeps [of "rev m" is_ws "rev y" "rev x'"] this obtain y'
    where "dropWhile is_ws (rev y @ rev m @ rev x') = y' @ rev m @ rev x'" by blast
  then have "trimEnd (x' @ m @ y) = x' @ m @ rev y'" by (simp add: trimEnd_def)
  with s show ?thesis by (simp add: trim_def)
qed

lemma fmt_keeps:
  "l \<in> set ls \<Longrightarrow> trim l \<noteq> [] \<Longrightarrow>
   (if marked (trim l) then l else leading_ws l @ trim l) \<in> set (fmt p ls)"
proof (induction ls arbitrary: p)
  case Nil
  then show ?case by simp
next
  case (Cons a ls)
  show ?case
  proof (cases "l = a")
    case True
    with Cons.prems(2) show ?thesis by (simp add: line_result_nonblank)
  next
    case False
    with Cons.prems have "l \<in> set ls" by simp
    from Cons.IH [OF this Cons.prems(2), of "Some a"] show ?thesis
      by (auto split: option.splits)
  qed
qed

lemma join_sublist: "r \<in> set rs \<Longrightarrow> sublist r (join rs)"
proof (induction rs rule: join.induct)
  case 1
  then show ?case by simp
next
  case (2 l)
  then show ?case by simp
next
  case (3 l m ls)
  show ?case
  proof (cases "r = l")
    case True
    then show ?thesis by simp
  next
    case False
    with "3.prems" have "r \<in> set (m # ls)" by simp
    then have "sublist r (join (m # ls))" by (rule "3.IH")
    then obtain x y where "join (m # ls) = x @ r @ y" by (auto simp: sublist_def)
    then have "join (l # m # ls) = (l @ 10 # x) @ r @ y" by simp
    then show ?thesis unfolding sublist_def by blast
  qed
qed

lemma format_keeps:
  assumes "sublist m c" and "10 \<notin> set m" and "m \<noteq> []"
    and "\<not> is_ws (hd m)" and "\<not> is_ws (last m)"
  shows "sublist m (format c)"
proof -
  from assms(1) obtain u v where c: "c = u @ m @ v" by (auto simp: sublist_def)
  from split_sublist [OF assms(2), of u v] c obtain l
    where l: "l \<in> set (split c)" "sublist m l" by blast
  from trim_sublist [OF l(2) assms(3-5)] have t: "sublist m (trim l)" .
  with assms(3) have ne: "trim l \<noteq> []" by (cases m) auto
  define r where "r = (if marked (trim l) then l else leading_ws l @ trim l)"
  from fmt_keeps [OF l(1) ne, of None] have "r \<in> set (fmt None (split c))" by (simp add: r_def)
  then have "sublist r (format c)"
    unfolding format_def format_lines_fmt by (rule join_sublist)
  moreover have "sublist m r"
  proof (cases "marked (trim l)")
    case True
    with l(2) show ?thesis by (simp add: r_def)
  next
    case False
    from t obtain x y where "trim l = x @ m @ y" by (auto simp: sublist_def)
    then have "leading_ws l @ trim l = (leading_ws l @ x) @ m @ y" by simp
    then have "sublist m (leading_ws l @ trim l)" unfolding sublist_def by blast
    with False show ?thesis by (simp add: r_def)
  qed
  ultimately show ?thesis by (rule sublist_order.order.trans [rotated])
qed

section \<open>The literal in the output\<close>

lemma includes_snoc_other:
  "q \<noteq> 36 \<Longrightarrow> q \<noteq> 123 \<Longrightarrow> js_includes (body @ [q]) (js ''${'') = js_includes body (js ''${'')"
proof (induction body)
  case Nil
  then show ?case by (simp add: js_includes_def js_def)
next
  case (Cons c body)
  have "startsWith (c # body @ [q]) (js ''${'') = startsWith (c # body) (js ''${'')"
    using Cons.prems by (cases body) (auto simp: js_def)
  with Cons show ?case by (simp add: js_includes_def)
qed

lemma before_format_literal:
  assumes "q = 34 \<or> q = 39"
    and "q \<notin> set body" and "92 \<notin> set body" and "\<not> js_includes body (js ''${'')"
    and "34 \<notin> set pre" and "39 \<notin> set pre" and "47 \<notin> set pre" and "95 \<notin> set pre"
    and "34 \<notin> set post" and "39 \<notin> set post" and "47 \<notin> set post" and "95 \<notin> set post"
    and "post = [] \<or> \<not> is_digit (hd post)"
  shows "snd (before_format ps (pre @ q # body @ [q] @ post)) = pre @ q # body @ [q] @ post"
proof -
  have hole: "\<not> js_includes (q # body @ [q]) (js ''${'')"
    using assms(1,4) includes_snoc_other [of q body]
    by (auto simp: includes_Cons_other js_def)
  from strings_pass_literal [OF assms(1-3) hole assms(5,6,9,10), of ps] obtain pre' m
    where pm: "pre' @ m = pre @ q # body @ [q]" and sub: "set pre' \<subseteq> set pre"
      and a: "replace_strings (ps, 0) (pre @ q # body @ q # post)
               = ((array_set ps 0 m, 1), pre' @ js ''PRESERVED_STRING_0'' @ post)"
    by blast
  from sub assms(7,8) have pre': "47 \<notin> set pre'" "95 \<notin> set pre'" by auto
  have "47 \<notin> set (pre' @ js ''PRESERVED_STRING_0'' @ post)"
    using pre'(1) assms(11) by (simp add: js_def)
  then have "strip_comments (pre' @ js ''PRESERVED_STRING_0'' @ post)
      = pre' @ js ''PRESERVED_STRING_0'' @ post"
    by (intro strip_comments_none no_char_includes) (simp_all add: js_def)
  moreover have "restore (array_set ps 0 m) (pre' @ js ''PRESERVED_STRING_0'' @ post)
      = pre' @ m @ post"
    using pre'(2) assms(12,13) by (rule restore_literal)
  ultimately show ?thesis using a pm by (simp add: before_format_def)
qed

lemma startsWith_prefix: "startsWith s p \<longleftrightarrow> prefix p s"
  by (induction s p rule: startsWith.induct) auto

lemma includes_sublist: "js_includes s p \<longleftrightarrow> sublist p s"
proof (induction s)
  case Nil
  show ?case by (simp add: js_includes_def)
next
  case (Cons c s)
  have "js_includes (c # s) p \<longleftrightarrow> startsWith (c # s) p \<or> js_includes s p"
    using not_includes_Cons [of c s p] by blast
  with Cons show ?case by (simp add: sublist_Cons_right startsWith_prefix)
qed

text \<open>
  A literal without \<^verbatim>\<open>${\<close> on one line, between text that holds no quote, no \<^verbatim>\<open>/\<close> and no
  \<^verbatim>\<open>_\<close>, is in the output, whatever its body holds and whatever the table of preserved
  strings holds.
\<close>

lemma plain_literal_kept:
  assumes "q = 34 \<or> q = 39"
    and "q \<notin> set body" and "92 \<notin> set body" and "10 \<notin> set body"
    and "\<not> js_includes body (js ''${'')"
    and "34 \<notin> set pre" and "39 \<notin> set pre" and "47 \<notin> set pre" and "95 \<notin> set pre"
    and "34 \<notin> set post" and "39 \<notin> set post" and "47 \<notin> set post" and "95 \<notin> set post"
    and "post = [] \<or> \<not> is_digit (hd post)"
  shows "js_includes (snd (process_file ps (pre @ q # body @ [q] @ post))) (q # body @ [q])"
proof -
  have "snd (process_file ps (pre @ q # body @ [q] @ post))
      = format (pre @ (q # body @ [q]) @ post)"
    using before_format_literal [OF assms(1-3,5-14), of ps] by (simp add: process_file_format)
  moreover have "sublist (q # body @ [q]) (format (pre @ (q # body @ [q]) @ post))"
  proof (rule format_keeps)
    show "sublist (q # body @ [q]) (pre @ (q # body @ [q]) @ post)" by (rule sublist_appendI)
    show "10 \<notin> set (q # body @ [q])" using assms(1,4) by auto
    show "q # body @ [q] \<noteq> []" by simp
    show "\<not> is_ws (hd (q # body @ [q]))" using assms(1) by (auto simp: is_ws_def)
    show "\<not> is_ws (last (q # body @ [q]))" using assms(1) by (auto simp: is_ws_def)
  qed
  ultimately show ?thesis by (simp add: includes_sublist)
qed

section \<open>Runs of the transformation on concrete texts\<close>

text \<open>
  Each run is traced pass by pass: the string-literal pass (\<open>a\<close>), the documentation
  comments (\<open>b\<close>), the line comments (\<open>c\<close>), the block comments (\<open>d\<close>), the restoring
  pass (\<open>e\<close>) and the formatting pass (\<open>f\<close>).
\<close>

lemmas text_eval = js_def sq_def is_ws_def is_digit_def is_line_terminator_def trim_def
  trimStart_def trimEnd_def leading_ws_def js_includes_def endsWith_def indexOf_def split.simps
  Let_def

lemmas comment_eval = text_eval strip_doc_def strip_line_def doc_comment_def line_comment_def

lemmas block_eval = text_eval strip_block_def strip_block_from.simps strip_nested.simps

lemmas restore_eval = text_eval restore_def placeholder_def array_get_def to_string_def
  to_number_def

lemmas strings_eval = comment_eval string_literal_def optional_r_def single_quoted_def
  triple_quoted_def on_string_def array_set_def interpolationRegex_def block_comment_def
  cleanExpr_def raw_hole_def hole_def

lemmas format_eval = text_eval format_def format_lines_def format_line_def keep_line_def
  marked_def List.map_filter_def

lemmas process_eval = process_def process_file_def before_format_def strip_comments_def

lemma run_comment_line:
  "process (js ''code1\<newline>// c\<newline>code2'')
     = js ''code1\<newline>\<newline>code2''"
proof -
  have a: "replace_strings ([], 0) (js ''code1\<newline>// c\<newline>code2'')
      = (([], 0), js ''code1\<newline>// c\<newline>code2'')"
    by (simp add: strings_eval)
  have b: "strip_doc (js ''code1\<newline>// c\<newline>code2'')
      = js ''code1\<newline>// c\<newline>code2''"
    by (simp add: comment_eval)
  have c: "strip_line (js ''code1\<newline>// c\<newline>code2'')
      = js ''code1\<newline>\<newline>code2''"
    by (simp add: comment_eval)
  have d: "strip_block (js ''code1\<newline>\<newline>code2'')
      = js ''code1\<newline>\<newline>code2''"
    by (simp add: block_eval)
  have e: "restore [] (js ''code1\<newline>\<newline>code2'')
      = js ''code1\<newline>\<newline>code2''"
    by (simp add: restore_eval)
  have f: "format (js ''code1\<newline>\<newline>code2'')
      = js ''code1\<newline>\<newline>code2''"
    by (simp add: format_eval)
  from a b c d e f show ?thesis
    by (simp add: process_eval js_def)
qed

lemma run_nested_block:
  "process (js ''/* a /* b */ c */x'')
     = js ''x''"
proof -
  have a: "replace_strings ([], 0) (js ''/* a /* b */ c */x'')
      = (([], 0), js ''/* a /* b */ c */x'')"
    by (simp add: strings_eval)
  have b: "strip_doc (js ''/* a /* b */ c */x'')
      = js ''/* a /* b */ c */x''"
    by (simp add: comment_eval)
  have c: "strip_line (js ''/* a /* b */ c */x'')
      = js ''/* a /* b */ c */x''"
    by (simp add: comment_eval)
  have d: "strip_block (js ''/* a /* b */ c */x'')
      = js ''x''"
    by (simp add: block_eval)
  have e: "restore [] (js ''x'')
      = js ''x''"
    by (simp add: restore_eval)
  have f: "format (js ''x'')
      = js ''x''"
    by (simp add: format_eval)
  from a b c d e f show ?thesis
    by (simp add: process_eval js_def)
qed

lemma run_placeholder_text:
  "process (js ''x = PRESERVED_STRING_0;'')
     = js ''x = undefined;''"
proof -
  have a: "replace_strings ([], 0) (js ''x = PRESERVED_STRING_0;'')
      = (([], 0), js ''x = PRESERVED_STRING_0;'')"
    by (simp add: strings_eval)
  have b: "strip_doc (js ''x = PRESERVED_STRING_0;'')
      = js ''x = PRESERVED_STRING_0;''"
    by (simp add: comment_eval)
  have c: "strip_line (js ''x = PRESERVED_STRING_0;'')
      = js ''x = PRESERVED_STRING_0;''"
    by (simp add: comment_eval)
  have d: "strip_block (js ''x = PRESERVED_STRING_0;'')
      = js ''x = PRESERVED_STRING_0;''"
    by (simp add: block_eval)
  have e: "restore [] (js ''x = PRESERVED_STRING_0;'')
      = js ''x = undefined;''"
    by (simp add: restore_eval)
  have f: "format (js ''x = undefined;'')
      = js ''x = undefined;''"
    by (simp add: format_eval)
  from a b c d e f show ?thesis
    by (simp add: process_eval js_def)
qed

lemma run_interpolated_literal:
  "process (js ''x = '' @ [39] @ js ''${a} // b'' @ [39] @ js '';'')
     = js ''x = '' @ [39] @ js ''${a}''"
proof -
  have a: "replace_strings ([], 0) (js ''x = '' @ [39] @ js ''${a} // b'' @ [39] @ js '';'')
      = (([], 0), js ''x = '' @ [39] @ js ''${a} // b'' @ [39] @ js '';'')"
    by (simp add: strings_eval)
  have b: "strip_doc (js ''x = '' @ [39] @ js ''${a} // b'' @ [39] @ js '';'')
      = js ''x = '' @ [39] @ js ''${a} // b'' @ [39] @ js '';''"
    by (simp add: comment_eval)
  have c: "strip_line (js ''x = '' @ [39] @ js ''${a} // b'' @ [39] @ js '';'')
      = js ''x = '' @ [39] @ js ''${a} ''"
    by (simp add: comment_eval)
  have d: "strip_block (js ''x = '' @ [39] @ js ''${a} '')
      = js ''x = '' @ [39] @ js ''${a} ''"
    by (simp add: block_eval)
  have e: "restore [] (js ''x = '' @ [39] @ js ''${a} '')
      = js ''x = '' @ [39] @ js ''${a} ''"
    by (simp add: restore_eval)
  have f: "format (js ''x = '' @ [39] @ js ''${a} '')
      = js ''x = '' @ [39] @ js ''${a}''"
    by (simp add: format_eval)
  from a b c d e f show ?thesis
    by (simp add: process_eval js_def)
qed

lemma run_raw_indent_first:
  "process (js ''r'' @ [39] @ js ''${ a\<newline> b}'' @ [39])
     = js ''r'' @ [39] @ js ''${\<newline> a\<newline> b\<newline> }'' @ [39]"
proof -
  have a: "replace_strings ([], 0) (js ''r'' @ [39] @ js ''${ a\<newline> b}'' @ [39])
      = (([], 0), js ''r'' @ [39] @ js ''${\<newline> a\<newline> b\<newline> }'' @ [39])"
    by (simp add: strings_eval)
  have b: "strip_doc (js ''r'' @ [39] @ js ''${\<newline> a\<newline> b\<newline> }'' @ [39])
      = js ''r'' @ [39] @ js ''${\<newline> a\<newline> b\<newline> }'' @ [39]"
    by (simp add: comment_eval)
  have c: "strip_line (js ''r'' @ [39] @ js ''${\<newline> a\<newline> b\<newline> }'' @ [39])
      = js ''r'' @ [39] @ js ''${\<newline> a\<newline> b\<newline> }'' @ [39]"
    by (simp add: comment_eval)
  have d: "strip_block (js ''r'' @ [39] @ js ''${\<newline> a\<newline> b\<newline> }'' @ [39])
      = js ''r'' @ [39] @ js ''${\<newline> a\<newline> b\<newline> }'' @ [39]"
    by (simp add: block_eval)
  have e: "restore [] (js ''r'' @ [39] @ js ''${\<newline> a\<newline> b\<newline> }'' @ [39])
      = js ''r'' @ [39] @ js ''${\<newline> a\<newline> b\<newline> }'' @ [39]"
    by (simp add: restore_eval)
  have f: "format (js ''r'' @ [39] @ js ''${\<newline> a\<newline> b\<newline> }'' @ [39])
      = js ''r'' @ [39] @ js ''${\<newline> a\<newline> b\<newline> }'' @ [39]"
    by (simp add: format_eval)
  from a b c d e f show ?thesis
    by (simp add: process_eval js_def)
qed

lemma run_raw_indent_second:
  "process (js ''r'' @ [39] @ js ''${\<newline> a\<newline> b\<newline> }'' @ [39])
     = js ''r'' @ [39] @ js ''${\<newline>a\<newline>b\<newline> }'' @ [39]"
proof -
  have a: "replace_strings ([], 0) (js ''r'' @ [39] @ js ''${\<newline> a\<newline> b\<newline> }'' @ [39])
      = (([], 0), js ''r'' @ [39] @ js ''${\<newline>a\<newline>b\<newline> }'' @ [39])"
    by (simp add: strings_eval)
  have b: "strip_doc (js ''r'' @ [39] @ js ''${\<newline>a\<newline>b\<newline> }'' @ [39])
      = js ''r'' @ [39] @ js ''${\<newline>a\<newline>b\<newline> }'' @ [39]"
    by (simp add: comment_eval)
  have c: "strip_line (js ''r'' @ [39] @ js ''${\<newline>a\<newline>b\<newline> }'' @ [39])
      = js ''r'' @ [39] @ js ''${\<newline>a\<newline>b\<newline> }'' @ [39]"
    by (simp add: comment_eval)
  have d: "strip_block (js ''r'' @ [39] @ js ''${\<newline>a\<newline>b\<newline> }'' @ [39])
      = js ''r'' @ [39] @ js ''${\<newline>a\<newline>b\<newline> }'' @ [39]"
    by (simp add: block_eval)
  have e: "restore [] (js ''r'' @ [39] @ js ''${\<newline>a\<newline>b\<newline> }'' @ [39])
      = js ''r'' @ [39] @ js ''${\<newline>a\<newline>b\<newline> }'' @ [39]"
    by (simp add: restore_eval)
  have f: "format (js ''r'' @ [39] @ js ''${\<newline>a\<newline>b\<newline> }'' @ [39])
      = js ''r'' @ [39] @ js ''${\<newline>a\<newline>b\<newline> }'' @ [39]"
    by (simp add: format_eval)
  from a b c d e f show ?thesis
    by (simp add: process_eval js_def)
qed

lemma run_trailing_and_blank:
  "process (js ''a  \<newline>\<newline>\<newline>b'')
     = js ''a\<newline>b''"
proof -
  have a: "replace_strings ([], 0) (js ''a  \<newline>\<newline>\<newline>b'')
      = (([], 0), js ''a  \<newline>\<newline>\<newline>b'')"
    by (simp add: strings_eval)
  have b: "strip_doc (js ''a  \<newline>\<newline>\<newline>b'')
      = js ''a  \<newline>\<newline>\<newline>b''"
    by (simp add: comment_eval)
  have c: "strip_line (js ''a  \<newline>\<newline>\<newline>b'')
      = js ''a  \<newline>\<newline>\<newline>b''"
    by (simp add: comment_eval)
  have d: "strip_block (js ''a  \<newline>\<newline>\<newline>b'')
      = js ''a  \<newline>\<newline>\<newline>b''"
    by (simp add: block_eval)
  have e: "restore [] (js ''a  \<newline>\<newline>\<newline>b'')
      = js ''a  \<newline>\<newline>\<newline>b''"
    by (simp add: restore_eval)
  have f: "format (js ''a  \<newline>\<newline>\<newline>b'')
      = js ''a\<newline>b''"
    by (simp add: format_eval)
  from a b c d e f show ?thesis
    by (simp add: process_eval js_def)
qed

lemma run_raw_two_blocks:
  "process (js ''r'' @ [39] @ js ''${a  /**/ /**/}'' @ [39])
     = js ''r'' @ [39] @ js ''${a /**/}'' @ [39]"
proof -
  have a: "replace_strings ([], 0) (js ''r'' @ [39] @ js ''${a  /**/ /**/}'' @ [39])
      = (([], 0), js ''r'' @ [39] @ js ''${a  /**/ /**/}'' @ [39])"
    by (simp add: strings_eval)
  have b: "strip_doc (js ''r'' @ [39] @ js ''${a  /**/ /**/}'' @ [39])
      = js ''r'' @ [39] @ js ''${a  /**/ /**/}'' @ [39]"
    by (simp add: comment_eval)
  have c: "strip_line (js ''r'' @ [39] @ js ''${a  /**/ /**/}'' @ [39])
      = js ''r'' @ [39] @ js ''${a  /**/ /**/}'' @ [39]"
    by (simp add: comment_eval)
  have d: "strip_block (js ''r'' @ [39] @ js ''${a  /**/ /**/}'' @ [39])
      = js ''r'' @ [39] @ js ''${a /**/}'' @ [39]"
    by (simp add: block_eval)
  have e: "restore [] (js ''r'' @ [39] @ js ''${a /**/}'' @ [39])
      = js ''r'' @ [39] @ js ''${a /**/}'' @ [39]"
    by (simp add: restore_eval)
  have f: "format (js ''r'' @ [39] @ js ''${a /**/}'' @ [39])
      = js ''r'' @ [39] @ js ''${a /**/}'' @ [39]"
    by (simp add: format_eval)
  from a b c d e f show ?thesis
    by (simp add: process_eval js_def)
qed

lemma run_plain_two_blocks:
  "process ([39] @ js ''${a  /**/ /**/}'' @ [39])
     = [39] @ js ''${a}'' @ [39]"
proof -
  have a: "replace_strings ([], 0) ([39] @ js ''${a  /**/ /**/}'' @ [39])
      = (([], 0), [39] @ js ''${a}'' @ [39])"
    by (simp add: strings_eval)
  have b: "strip_doc ([39] @ js ''${a}'' @ [39])
      = [39] @ js ''${a}'' @ [39]"
    by (simp add: comment_eval)
  have c: "strip_line ([39] @ js ''${a}'' @ [39])
      = [39] @ js ''${a}'' @ [39]"
    by (simp add: comment_eval)
  have d: "strip_block ([39] @ js ''${a}'' @ [39])
      = [39] @ js ''${a}'' @ [39]"
    by (simp add: block_eval)
  have e: "restore [] ([39] @ js ''${a}'' @ [39])
      = [39] @ js ''${a}'' @ [39]"
    by (simp add: restore_eval)
  have f: "format ([39] @ js ''${a}'' @ [39])
      = [39] @ js ''${a}'' @ [39]"
    by (simp add: format_eval)
  from a b c d e f show ?thesis
    by (simp add: process_eval js_def)
qed


lemma run_trailing_space:
  "process (js ''a  '')
     = js ''a''"
proof -
  have a: "replace_strings ([], 0) (js ''a  '')
      = (([], 0), js ''a  '')"
    by (simp add: strings_eval)
  have b: "strip_doc (js ''a  '')
      = js ''a  ''"
    by (simp add: comment_eval)
  have c: "strip_line (js ''a  '')
      = js ''a  ''"
    by (simp add: comment_eval)
  have d: "strip_block (js ''a  '')
      = js ''a  ''"
    by (simp add: block_eval)
  have e: "restore [] (js ''a  '')
      = js ''a  ''"
    by (simp add: restore_eval)
  have f: "format (js ''a  '')
      = js ''a''"
    by (simp add: format_eval)
  from a b c d e f show ?thesis
    by (simp add: process_eval js_def)
qed

lemma run_plain_literal:
  "process (js ''x = '' @ [39] @ js ''a // b /* c */'' @ [39] @ js '';'')
     = js ''x = '' @ [39] @ js ''a // b /* c */'' @ [39] @ js '';''"
proof -
  have a: "replace_strings ([], 0) (js ''x = '' @ [39] @ js ''a // b /* c */'' @ [39] @ js '';'')
      = (([Some ([39] @ js ''a // b /* c */'' @ [39])], 1), js ''x = PRESERVED_STRING_0;'')"
    by (simp add: strings_eval)
  have b: "strip_doc (js ''x = PRESERVED_STRING_0;'')
      = js ''x = PRESERVED_STRING_0;''"
    by (simp add: comment_eval)
  have c: "strip_line (js ''x = PRESERVED_STRING_0;'')
      = js ''x = PRESERVED_STRING_0;''"
    by (simp add: comment_eval)
  have d: "strip_block (js ''x = PRESERVED_STRING_0;'')
      = js ''x = PRESERVED_STRING_0;''"
    by (simp add: block_eval)
  have e: "restore [Some ([39] @ js ''a // b /* c */'' @ [39])] (js ''x = PRESERVED_STRING_0;'')
      = js ''x = '' @ [39] @ js ''a // b /* c */'' @ [39] @ js '';''"
    by (simp add: restore_eval)
  have f: "format (js ''x = '' @ [39] @ js ''a // b /* c */'' @ [39] @ js '';'')
      = js ''x = '' @ [39] @ js ''a // b /* c */'' @ [39] @ js '';''"
    by (simp add: format_eval)
  from a b c d e f show ?thesis
    by (simp add: process_eval js_def)
qed

lemma run_cut_literal_first:
  "process (js ''x = '' @ [39] @ js ''${a} // b'' @ [39] @ js '';\<newline>y = '' @ [39] @ js ''// c'' @ [39] @ js '';'')
     = js ''x = '' @ [39] @ js ''${a}\<newline>y = '' @ [39] @ js ''// c'' @ [39] @ js '';''"
proof -
  have a: "replace_strings ([], 0) (js ''x = '' @ [39] @ js ''${a} // b'' @ [39] @ js '';\<newline>y = '' @ [39] @ js ''// c'' @ [39] @ js '';'')
      = (([Some ([39] @ js ''// c'' @ [39])], 1), js ''x = '' @ [39] @ js ''${a} // b'' @ [39] @ js '';\<newline>y = PRESERVED_STRING_0;'')"
    by (simp add: strings_eval)
  have b: "strip_doc (js ''x = '' @ [39] @ js ''${a} // b'' @ [39] @ js '';\<newline>y = PRESERVED_STRING_0;'')
      = js ''x = '' @ [39] @ js ''${a} // b'' @ [39] @ js '';\<newline>y = PRESERVED_STRING_0;''"
    by (simp add: comment_eval)
  have c: "strip_line (js ''x = '' @ [39] @ js ''${a} // b'' @ [39] @ js '';\<newline>y = PRESERVED_STRING_0;'')
      = js ''x = '' @ [39] @ js ''${a} \<newline>y = PRESERVED_STRING_0;''"
    by (simp add: comment_eval)
  have d: "strip_block (js ''x = '' @ [39] @ js ''${a} \<newline>y = PRESERVED_STRING_0;'')
      = js ''x = '' @ [39] @ js ''${a} \<newline>y = PRESERVED_STRING_0;''"
    by (simp add: block_eval)
  have e: "restore [Some ([39] @ js ''// c'' @ [39])] (js ''x = '' @ [39] @ js ''${a} \<newline>y = PRESERVED_STRING_0;'')
      = js ''x = '' @ [39] @ js ''${a} \<newline>y = '' @ [39] @ js ''// c'' @ [39] @ js '';''"
    by (simp add: restore_eval)
  have f: "format (js ''x = '' @ [39] @ js ''${a} \<newline>y = '' @ [39] @ js ''// c'' @ [39] @ js '';'')
      = js ''x = '' @ [39] @ js ''${a}\<newline>y = '' @ [39] @ js ''// c'' @ [39] @ js '';''"
    by (simp add: format_eval)
  from a b c d e f show ?thesis
    by (simp add: process_eval js_def)
qed

lemma run_cut_literal_second:
  "process (js ''x = '' @ [39] @ js ''${a}\<newline>y = '' @ [39] @ js ''// c'' @ [39] @ js '';'')
     = js ''x = '' @ [39] @ js ''${a}\<newline>y = '' @ [39]"
proof -
  have a: "replace_strings ([], 0) (js ''x = '' @ [39] @ js ''${a}\<newline>y = '' @ [39] @ js ''// c'' @ [39] @ js '';'')
      = (([], 0), js ''x = '' @ [39] @ js ''${a}\<newline>y = '' @ [39] @ js ''// c'' @ [39] @ js '';'')"
    by (simp add: strings_eval)
  have b: "strip_doc (js ''x = '' @ [39] @ js ''${a}\<newline>y = '' @ [39] @ js ''// c'' @ [39] @ js '';'')
      = js ''x = '' @ [39] @ js ''${a}\<newline>y = '' @ [39] @ js ''// c'' @ [39] @ js '';''"
    by (simp add: comment_eval)
  have c: "strip_line (js ''x = '' @ [39] @ js ''${a}\<newline>y = '' @ [39] @ js ''// c'' @ [39] @ js '';'')
      = js ''x = '' @ [39] @ js ''${a}\<newline>y = '' @ [39]"
    by (simp add: comment_eval)
  have d: "strip_block (js ''x = '' @ [39] @ js ''${a}\<newline>y = '' @ [39])
      = js ''x = '' @ [39] @ js ''${a}\<newline>y = '' @ [39]"
    by (simp add: block_eval)
  have e: "restore [] (js ''x = '' @ [39] @ js ''${a}\<newline>y = '' @ [39])
      = js ''x = '' @ [39] @ js ''${a}\<newline>y = '' @ [39]"
    by (simp add: restore_eval)
  have f: "format (js ''x = '' @ [39] @ js ''${a}\<newline>y = '' @ [39])
      = js ''x = '' @ [39] @ js ''${a}\<newline>y = '' @ [39]"
    by (simp add: format_eval)
  from a b c d e f show ?thesis
    by (simp add: process_eval js_def)
qed

lemma run_plain_sibling:
  "process (js ''x = '' @ [39] @ js ''a // b'' @ [39] @ js '';'')
     = js ''x = '' @ [39] @ js ''a // b'' @ [39] @ js '';''"
proof -
  have a: "replace_strings ([], 0) (js ''x = '' @ [39] @ js ''a // b'' @ [39] @ js '';'')
      = (([Some ([39] @ js ''a // b'' @ [39])], 1), js ''x = PRESERVED_STRING_0;'')"
    by (simp add: strings_eval)
  have b: "strip_doc (js ''x = PRESERVED_STRING_0;'')
      = js ''x = PRESERVED_STRING_0;''"
    by (simp add: comment_eval)
  have c: "strip_line (js ''x = PRESERVED_STRING_0;'')
      = js ''x = PRESERVED_STRING_0;''"
    by (simp add: comment_eval)
  have d: "strip_block (js ''x = PRESERVED_STRING_0;'')
      = js ''x = PRESERVED_STRING_0;''"
    by (simp add: block_eval)
  have e: "restore [Some ([39] @ js ''a // b'' @ [39])] (js ''x = PRESERVED_STRING_0;'')
      = js ''x = '' @ [39] @ js ''a // b'' @ [39] @ js '';''"
    by (simp add: restore_eval)
  have f: "format (js ''x = '' @ [39] @ js ''a // b'' @ [39] @ js '';'')
      = js ''x = '' @ [39] @ js ''a // b'' @ [39] @ js '';''"
    by (simp add: format_eval)
  from a b c d e f show ?thesis
    by (simp add: process_eval js_def)
qed

lemma run_hole_indent_first:
  "process ([39] @ js ''${ a\<newline> b}'' @ [39])
     = [39] @ js ''${\<newline> a\<newline> b\<newline> }'' @ [39]"
proof -
  have a: "replace_strings ([], 0) ([39] @ js ''${ a\<newline> b}'' @ [39])
      = (([], 0), [39] @ js ''${\<newline> a\<newline> b\<newline> }'' @ [39])"
    by (simp add: strings_eval)
  have b: "strip_doc ([39] @ js ''${\<newline> a\<newline> b\<newline> }'' @ [39])
      = [39] @ js ''${\<newline> a\<newline> b\<newline> }'' @ [39]"
    by (simp add: comment_eval)
  have c: "strip_line ([39] @ js ''${\<newline> a\<newline> b\<newline> }'' @ [39])
      = [39] @ js ''${\<newline> a\<newline> b\<newline> }'' @ [39]"
    by (simp add: comment_eval)
  have d: "strip_block ([39] @ js ''${\<newline> a\<newline> b\<newline> }'' @ [39])
      = [39] @ js ''${\<newline> a\<newline> b\<newline> }'' @ [39]"
    by (simp add: block_eval)
  have e: "restore [] ([39] @ js ''${\<newline> a\<newline> b\<newline> }'' @ [39])
      = [39] @ js ''${\<newline> a\<newline> b\<newline> }'' @ [39]"
    by (simp add: restore_eval)
  have f: "format ([39] @ js ''${\<newline> a\<newline> b\<newline> }'' @ [39])
      = [39] @ js ''${\<newline> a\<newline> b\<newline> }'' @ [39]"
    by (simp add: format_eval)
  from a b c d e f show ?thesis
    by (simp add: process_eval js_def)
qed

lemma run_hole_indent_second:
  "process ([39] @ js ''${\<newline> a\<newline> b\<newline> }'' @ [39])
     = [39] @ js ''${\<newline> a\<newline> b\<newline> }'' @ [39]"
proof -
  have a: "replace_strings ([], 0) ([39] @ js ''${\<newline> a\<newline> b\<newline> }'' @ [39])
      = (([], 0), [39] @ js ''${\<newline> a\<newline> b\<newline> }'' @ [39])"
    by (simp add: strings_eval)
  have b: "strip_doc ([39] @ js ''${\<newline> a\<newline> b\<newline> }'' @ [39])
      = [39] @ js ''${\<newline> a\<newline> b\<newline> }'' @ [39]"
    by (simp add: comment_eval)
  have c: "strip_line ([39] @ js ''${\<newline> a\<newline> b\<newline> }'' @ [39])
      = [39] @ js ''${\<newline> a\<newline> b\<newline> }'' @ [39]"
    by (simp add: comment_eval)
  have d: "strip_block ([39] @ js ''${\<newline> a\<newline> b\<newline> }'' @ [39])
      = [39] @ js ''${\<newline> a\<newline> b\<newline> }'' @ [39]"
    by (simp add: block_eval)
  have e: "restore [] ([39] @ js ''${\<newline> a\<newline> b\<newline> }'' @ [39])
      = [39] @ js ''${\<newline> a\<newline> b\<newline> }'' @ [39]"
    by (simp add: restore_eval)
  have f: "format ([39] @ js ''${\<newline> a\<newline> b\<newline> }'' @ [39])
      = [39] @ js ''${\<newline> a\<newline> b\<newline> }'' @ [39]"
    by (simp add: format_eval)
  from a b c d e f show ?thesis
    by (simp add: process_eval js_def)
qed

lemma run_two_blocks_first:
  "process (js ''a  /**/ /**/b'')
     = js ''a /**/b''"
proof -
  have a: "replace_strings ([], 0) (js ''a  /**/ /**/b'')
      = (([], 0), js ''a  /**/ /**/b'')"
    by (simp add: strings_eval)
  have b: "strip_doc (js ''a  /**/ /**/b'')
      = js ''a  /**/ /**/b''"
    by (simp add: comment_eval)
  have c: "strip_line (js ''a  /**/ /**/b'')
      = js ''a  /**/ /**/b''"
    by (simp add: comment_eval)
  have d: "strip_block (js ''a  /**/ /**/b'')
      = js ''a /**/b''"
    by (simp add: block_eval)
  have e: "restore [] (js ''a /**/b'')
      = js ''a /**/b''"
    by (simp add: restore_eval)
  have f: "format (js ''a /**/b'')
      = js ''a /**/b''"
    by (simp add: format_eval)
  from a b c d e f show ?thesis
    by (simp add: process_eval js_def)
qed

lemma run_two_blocks_second:
  "process (js ''a /**/b'')
     = js ''ab''"
proof -
  have a: "replace_strings ([], 0) (js ''a /**/b'')
      = (([], 0), js ''a /**/b'')"
    by (simp add: strings_eval)
  have b: "strip_doc (js ''a /**/b'')
      = js ''a /**/b''"
    by (simp add: comment_eval)
  have c: "strip_line (js ''a /**/b'')
      = js ''a /**/b''"
    by (simp add: comment_eval)
  have d: "strip_block (js ''a /**/b'')
      = js ''ab''"
    by (simp add: block_eval)
  have e: "restore [] (js ''ab'')
      = js ''ab''"
    by (simp add: restore_eval)
  have f: "format (js ''ab'')
      = js ''ab''"
    by (simp add: format_eval)
  from a b c d e f show ?thesis
    by (simp add: process_eval js_def)
qed

lemma run_interpolated_url:
  "process (js ''u = '' @ [39] @ js ''${base}//path'' @ [39] @ js '';'')
     = js ''u = '' @ [39] @ js ''${base}''"
proof -
  have a: "replace_strings ([], 0) (js ''u = '' @ [39] @ js ''${base}//path'' @ [39] @ js '';'')
      = (([], 0), js ''u = '' @ [39] @ js ''${base}//path'' @ [39] @ js '';'')"
    by (simp add: strings_eval)
  have b: "strip_doc (js ''u = '' @ [39] @ js ''${base}//path'' @ [39] @ js '';'')
      = js ''u = '' @ [39] @ js ''${base}//path'' @ [39] @ js '';''"
    by (simp add: comment_eval)
  have c: "strip_line (js ''u = '' @ [39] @ js ''${base}//path'' @ [39] @ js '';'')
      = js ''u = '' @ [39] @ js ''${base}''"
    by (simp add: comment_eval)
  have d: "strip_block (js ''u = '' @ [39] @ js ''${base}'')
      = js ''u = '' @ [39] @ js ''${base}''"
    by (simp add: block_eval)
  have e: "restore [] (js ''u = '' @ [39] @ js ''${base}'')
      = js ''u = '' @ [39] @ js ''${base}''"
    by (simp add: restore_eval)
  have f: "format (js ''u = '' @ [39] @ js ''${base}'')
      = js ''u = '' @ [39] @ js ''${base}''"
    by (simp add: format_eval)
  from a b c d e f show ?thesis
    by (simp add: process_eval js_def)
qed

section \<open>The claims\<close>

text \<open>
  C1 (as the specification states it): the body of every string literal that holds
  \<^verbatim>\<open>//\<close>, \<^verbatim>\<open>/* */\<close> or \<^verbatim>\<open>///\<close> is in the output byte for byte, also when the literal has
  \<^verbatim>\<open>${...}\<close> holes (the text outside the holes). The code does not do that: a literal
  with \<^verbatim>\<open>${\<close> is not replaced by a placeholder, its text goes back into the content, and
  the line-comment pass cuts it at the \<^verbatim>\<open>//\<close>, closing quote included; a \<^verbatim>\<open>//\<close> of a URL
  right after a hole is cut in the same way. The same literal without the hole is
  stored, restored and left as it is.
\<close>

theorem C1_interpolated_literal_cut:
  "process (js ''x = '' @ sq (js ''${a} // b'') @ js '';'') = js ''x = '' @ [39] @ js ''${a}''
   \<and> \<not> js_includes (process (js ''x = '' @ sq (js ''${a} // b'') @ js '';'')) (js '' // b'')
   \<and> process (js ''u = '' @ sq (js ''${base}//path'') @ js '';'') = js ''u = '' @ [39] @ js ''${base}''
   \<and> process (js ''x = '' @ sq (js ''a // b'') @ js '';'') = js ''x = '' @ sq (js ''a // b'') @ js '';''"
proof -
  have "process (js ''x = '' @ sq (js ''${a} // b'') @ js '';'') = js ''x = '' @ [39] @ js ''${a}''"
    using run_interpolated_literal by (simp add: js_def sq_def)
  moreover from this
  have "\<not> js_includes (process (js ''x = '' @ sq (js ''${a} // b'') @ js '';'')) (js '' // b'')"
    by (simp add: text_eval)
  moreover
  have "process (js ''u = '' @ sq (js ''${base}//path'') @ js '';'') = js ''u = '' @ [39] @ js ''${base}''"
    using run_interpolated_url by (simp add: js_def sq_def)
  moreover
  have "process (js ''x = '' @ sq (js ''a // b'') @ js '';'') = js ''x = '' @ sq (js ''a // b'') @ js '';''"
    using run_plain_sibling by (simp add: js_def sq_def)
  ultimately show ?thesis by blast
qed

text \<open>
  C2 (as the specification states it): applying the transformation to its own output
  yields that output, for every input. The code does not do that, on three inputs.
  First: a raw string whose hole spans lines is re-indented with the indentation of the
  hole's first line, and after the first pass that first line is empty, so the second
  pass removes the indentation the first pass wrote; the same literal without the
  \<^verbatim>\<open>r\<close> keeps the indentation of each line and is stable. Second: of two block comments
  after white space the first pass removes one, the second pass the other (the search
  position of the block-comment loop is stale once \<^verbatim>\<open>trimEnd()\<close> has shortened the
  text). Third: the first pass cuts a literal with a hole at its \<^verbatim>\<open>//\<close>, closing quote
  included, so in the second pass the quotes pair differently and the \<^verbatim>\<open>//\<close> of the
  next literal is no longer protected.
\<close>

theorem C2_second_pass_changes_output:
  "process (process (js ''r'' @ [39] @ js ''${ a\<newline> b}'' @ [39]))
     \<noteq> process (js ''r'' @ [39] @ js ''${ a\<newline> b}'' @ [39])
   \<and> process (js ''r'' @ [39] @ js ''${ a\<newline> b}'' @ [39])
       = js ''r'' @ [39] @ js ''${\<newline> a\<newline> b\<newline> }'' @ [39]
   \<and> process (process (js ''r'' @ [39] @ js ''${ a\<newline> b}'' @ [39]))
       = js ''r'' @ [39] @ js ''${\<newline>a\<newline>b\<newline> }'' @ [39]
   \<and> process (process ([39] @ js ''${ a\<newline> b}'' @ [39])) = process ([39] @ js ''${ a\<newline> b}'' @ [39])
   \<and> process ([39] @ js ''${ a\<newline> b}'' @ [39]) = [39] @ js ''${\<newline> a\<newline> b\<newline> }'' @ [39]
   \<and> process (process (js ''a  /**/ /**/b'')) \<noteq> process (js ''a  /**/ /**/b'')
   \<and> process (js ''a  /**/ /**/b'') = js ''a /**/b''
   \<and> process (process (js ''a  /**/ /**/b'')) = js ''ab''
   \<and> process (process (js ''x = '' @ sq (js ''${a} // b'') @ js '';\<newline>y = '' @ sq (js ''// c'') @ js '';''))
     \<noteq> process (js ''x = '' @ sq (js ''${a} // b'') @ js '';\<newline>y = '' @ sq (js ''// c'') @ js '';'')
   \<and> process (js ''x = '' @ sq (js ''${a} // b'') @ js '';\<newline>y = '' @ sq (js ''// c'') @ js '';'')
       = js ''x = '' @ [39] @ js ''${a}\<newline>y = '' @ sq (js ''// c'') @ js '';''
   \<and> process (process (js ''x = '' @ sq (js ''${a} // b'') @ js '';\<newline>y = '' @ sq (js ''// c'') @ js '';''))
       = js ''x = '' @ [39] @ js ''${a}\<newline>y = '' @ [39]"
proof -
  have r: "process (js ''r'' @ [39] @ js ''${ a\<newline> b}'' @ [39])
        = js ''r'' @ [39] @ js ''${\<newline> a\<newline> b\<newline> }'' @ [39]"
      "process (process (js ''r'' @ [39] @ js ''${ a\<newline> b}'' @ [39]))
        = js ''r'' @ [39] @ js ''${\<newline>a\<newline>b\<newline> }'' @ [39]"
      "process (process (js ''r'' @ [39] @ js ''${ a\<newline> b}'' @ [39]))
        \<noteq> process (js ''r'' @ [39] @ js ''${ a\<newline> b}'' @ [39])"
    using run_raw_indent_first run_raw_indent_second by (simp_all add: js_def)
  have h: "process ([39] @ js ''${ a\<newline> b}'' @ [39]) = [39] @ js ''${\<newline> a\<newline> b\<newline> }'' @ [39]"
      "process (process ([39] @ js ''${ a\<newline> b}'' @ [39])) = process ([39] @ js ''${ a\<newline> b}'' @ [39])"
    using run_hole_indent_first run_hole_indent_second by (simp_all add: js_def)
  have b: "process (js ''a  /**/ /**/b'') = js ''a /**/b''"
      "process (process (js ''a  /**/ /**/b'')) = js ''ab''"
      "process (process (js ''a  /**/ /**/b'')) \<noteq> process (js ''a  /**/ /**/b'')"
    using run_two_blocks_first run_two_blocks_second by (simp_all add: js_def)
  have c: "process (js ''x = '' @ sq (js ''${a} // b'') @ js '';\<newline>y = '' @ sq (js ''// c'') @ js '';'')
        = js ''x = '' @ [39] @ js ''${a}\<newline>y = '' @ sq (js ''// c'') @ js '';''"
      "process (process (js ''x = '' @ sq (js ''${a} // b'') @ js '';\<newline>y = '' @ sq (js ''// c'') @ js '';''))
        = js ''x = '' @ [39] @ js ''${a}\<newline>y = '' @ [39]"
      "process (process (js ''x = '' @ sq (js ''${a} // b'') @ js '';\<newline>y = '' @ sq (js ''// c'') @ js '';''))
        \<noteq> process (js ''x = '' @ sq (js ''${a} // b'') @ js '';\<newline>y = '' @ sq (js ''// c'') @ js '';'')"
    using run_cut_literal_first run_cut_literal_second by (simp_all add: js_def sq_def)
  from r h b c show ?thesis by blast
qed

text \<open>
  C3 (as the specification states it): an input with no comments and no string literals
  is returned unchanged, blank lines and white space included. The code does not do
  that: trailing white space and runs of blank lines are removed.
\<close>

theorem C3_unchanged_counterexample:
  "34 \<notin> set (js ''a  \<newline>\<newline>\<newline>b'') \<and> 39 \<notin> set (js ''a  \<newline>\<newline>\<newline>b'')
   \<and> 47 \<notin> set (js ''a  \<newline>\<newline>\<newline>b'')
   \<and> process (js ''a  \<newline>\<newline>\<newline>b'') \<noteq> js ''a  \<newline>\<newline>\<newline>b''"
  using run_trailing_and_blank by (simp add: js_def)

text \<open>
  C3 (amended): for every input with no quote character, no \<^verbatim>\<open>//\<close>, no \<^verbatim>\<open>/*\<close> and no
  \<^verbatim>\<open>PRESERVED_STRING_\<close>, the transformation is the formatting pass alone and leaves the
  table of preserved strings as it was; the output is the input itself when every line
  of the input ends in a code unit that is not white space (so there is no blank line
  and no trailing white space for the formatting pass to remove).
\<close>

theorem C3_plain_text_only_formatted:
  assumes "34 \<notin> set x" and "39 \<notin> set x"
    and "\<not> js_includes x (js ''//'')" and "\<not> js_includes x (js ''/*'')"
    and "\<not> js_includes x (js ''PRESERVED_STRING_'')"
  shows "process_file ps x = (ps, format x)
     \<and> ((\<forall>l \<in> set (split x). l \<noteq> [] \<and> \<not> is_ws (last l)) \<longrightarrow> process_file ps x = (ps, x))"
  using process_file_plain [OF assms] format_fixed [of x] by simp

text \<open>An instance: two lines of code.\<close>

theorem C3_plain_text_witness:
  "34 \<notin> set (js ''a\<newline>b'') \<and> 39 \<notin> set (js ''a\<newline>b'')
   \<and> process_file [] (js ''a\<newline>b'') = ([], js ''a\<newline>b'')"
proof -
  have h1: "34 \<notin> set (js ''a\<newline>b'')" and h2: "39 \<notin> set (js ''a\<newline>b'')"
    by (simp_all add: js_def)
  have h3: "\<not> js_includes (js ''a\<newline>b'') (js ''//'')"
    and h4: "\<not> js_includes (js ''a\<newline>b'') (js ''/*'')"
    and h5: "\<not> js_includes (js ''a\<newline>b'') (js ''PRESERVED_STRING_'')"
    by (simp_all add: text_eval)
  have h6: "\<forall>l \<in> set (split (js ''a\<newline>b'')). l \<noteq> [] \<and> \<not> is_ws (last l)"
    by (simp add: text_eval)
  from C3_plain_text_only_formatted [OF h1 h2 h3 h4 h5, of "[]"] h6
  have "process_file [] (js ''a\<newline>b'') = ([], js ''a\<newline>b'')" by blast
  with h1 h2 show ?thesis by blast
qed

text \<open>
  C4: in a raw string with a hole, the comments inside the hole are removed from the
  output as they are for a string that is not raw. The code does not do that for the
  raw literal below: the second block comment of the hole stays, while the same literal
  without the \<^verbatim>\<open>r\<close> loses both. (The raw literal goes back into the text untouched and
  is left to the block-comment loop, which resumes at \<^verbatim>\<open>lastIndex = start\<close> although
  \<^verbatim>\<open>trimEnd()\<close> has shortened the text before \<^verbatim>\<open>start\<close>.)
\<close>

theorem C4_raw_hole_comment_left:
  "process (js ''r'' @ sq (js ''${a  /**/ /**/}'')) = js ''r'' @ sq (js ''${a /**/}'')
   \<and> process (sq (js ''${a  /**/ /**/}'')) = sq (js ''${a}'')"
  using run_raw_two_blocks run_plain_two_blocks by (simp add: js_def sq_def)

text \<open>
  C5 (as the specification states it): for the input \<^verbatim>\<open>"code1\n// c\ncode2"\<close> the output
  is \<^verbatim>\<open>"code1\ncode2"\<close>. The code does not do that: the output differs.
\<close>

theorem C5_no_blank_line_counterexample:
  "process (js ''code1\<newline>// c\<newline>code2'') \<noteq> js ''code1\<newline>code2''"
  using run_comment_line by (simp add: js_def)

text \<open>
  C5 (amended): for the input \<^verbatim>\<open>"code1\n// c\ncode2"\<close> the output is
  \<^verbatim>\<open>"code1\n\ncode2"\<close>: the comment text is removed, and the line it occupied stays as an
  empty line, since an empty line between two non-empty lines (the first not ending in
  \<^verbatim>\<open>{\<close>, the second not starting with \<^verbatim>\<open>}\<close>) is kept by the formatting pass.
\<close>

theorem C5_comment_line_leaves_blank_line:
  "process (js ''code1\<newline>// c\<newline>code2'') = js ''code1\<newline>\<newline>code2''"
  by (rule run_comment_line)

text \<open>
  C6: for the input \<^verbatim>\<open>"/* a /* b */ c */x"\<close> the output is exactly \<^verbatim>\<open>"x"\<close>: the nested
  comment is closed first and the whole outer comment is removed.
\<close>

theorem C6_nested_block_comment:
  "process (js ''/* a /* b */ c */x'') = js ''x''"
  by (rule run_nested_block)






text \<open>
  C9: every non-blank line of the output whose trimmed content holds none of the markers
  (\<^verbatim>\<open>PRESERVED_STRING_\<close>, three double quotes, three single quotes) is its leading white
  space followed by its trimmed content, so it has no trailing white space; and these
  are the leading white space and the trimmed content of a line of the text that
  entered the formatting pass.
\<close>

theorem C9_code_lines_have_no_trailing_white_space:
  assumes "l \<in> set (split (snd (process_file ps content)))"
    and "trim l \<noteq> []" and "\<not> marked (trim l)"
  shows "l = leading_ws l @ trim l
     \<and> (\<exists>line \<in> set (split (snd (before_format ps content))).
           leading_ws line = leading_ws l \<and> trim line = trim l)"
  using assms by (intro formatted_line) (simp_all add: process_file_format)

text \<open>An instance: a line of code without any comment loses its trailing white space.\<close>

theorem C9_trailing_white_space_witness:
  "js ''a'' \<in> set (split (snd (process_file [] (js ''a  ''))))
   \<and> snd (before_format [] (js ''a  '')) = js ''a  ''
   \<and> js ''a'' = leading_ws (js ''a'') @ trim (js ''a'')"
proof -
  have out: "snd (process_file [] (js ''a  '')) = js ''a''"
    using run_trailing_space by (simp add: process_def)
  have h1: "js ''a'' \<in> set (split (snd (process_file [] (js ''a  ''))))"
    unfolding out by (simp add: text_eval)
  have h2: "trim (js ''a'') \<noteq> []" and h3: "\<not> marked (trim (js ''a''))"
    by (simp_all add: text_eval marked_def)
  have "quotes (js ''a  '') \<le> 1" by (simp add: quotes_def js_def)
  then have "before_format [] (js ''a  '') = ([], restore [] (strip_comments (js ''a  '')))"
    by (rule before_format_plain)
  moreover have "strip_comments (js ''a  '') = js ''a  ''"
    by (rule strip_comments_none) (simp_all add: text_eval)
  moreover have "restore [] (js ''a  '') = js ''a  ''"
    by (rule restore_no_placeholder) (simp add: text_eval)
  ultimately have b: "snd (before_format [] (js ''a  '')) = js ''a  ''" by simp
  from C9_code_lines_have_no_trailing_white_space [OF h1 h2 h3] h1 b
  show ?thesis by blast
qed

text \<open>
  C10: there is an input without any string literal (it has no quote character at all)
  that contains the text \<^verbatim>\<open>PRESERVED_STRING_0\<close>; the string-literal pass stores nothing
  for it, and the restoring pass replaces that text by \<^verbatim>\<open>undefined\<close>.
\<close>

theorem C10_placeholder_collision:
  "34 \<notin> set (js ''x = PRESERVED_STRING_0;'') \<and> 39 \<notin> set (js ''x = PRESERVED_STRING_0;'')
   \<and> js_includes (js ''x = PRESERVED_STRING_0;'') (js ''PRESERVED_STRING_0'')
   \<and> fst (process_file [] (js ''x = PRESERVED_STRING_0;'')) = []
   \<and> process (js ''x = PRESERVED_STRING_0;'') = js ''x = undefined;''"
proof -
  have "replace_strings ([], 0) (js ''x = PRESERVED_STRING_0;'')
      = (([], 0), js ''x = PRESERVED_STRING_0;'')"
    by (simp add: strings_eval)
  then have "fst (process_file [] (js ''x = PRESERVED_STRING_0;'')) = []"
    by (simp add: process_file_def before_format_def)
  moreover have "js_includes (js ''x = PRESERVED_STRING_0;'') (js ''PRESERVED_STRING_0'')"
    by (simp add: text_eval)
  moreover have "34 \<notin> set (js ''x = PRESERVED_STRING_0;'')"
    "39 \<notin> set (js ''x = PRESERVED_STRING_0;'')"
    by (simp_all add: js_def)
  ultimately show ?thesis
    using run_placeholder_text by simp
qed


end
